theory Spec2Isabelle
  imports Main "HOL-Library.Word"
begin

section \<open>Data model of \<open>shared_pointer.hpp\<close>\<close>

text \<open>
  The header defines two class templates, \<open>SharedPtr<T>\<close> and \<open>WeakPtr<T>\<close>, over one
  heap-allocated \<open>Counter\<close> per ownership group. Handles alias the counter through raw
  pointers, so the model is an explicit store: handle objects live in numbered slots,
  counters and managed objects live at heap addresses, and every method is a function
  from store to store. A null pointer is \<open>None\<close>.
\<close>

type_synonym addr = nat

type_synonym size_t = "64 word"

text \<open>
  A handle object is two pointers (16 bytes), so a 64-bit address space has room for at
  most \<open>2^60\<close> of them; the slots that hold handle objects are numbered accordingly.
  Two references to handles are the same object (\<open>this == &other\<close>) iff their slots
  are equal.
\<close>

type_synonym slot = "60 word"

text \<open>
  \<open>struct Counter { size_t shared_count_; size_t weak_count_; }\<close>. The fields \<open>shared_count_\<close>,
  \<open>weak_count_\<close> and \<open>ptr_\<close> of the source are written here without their trailing
  underscore, which a record field cannot carry.
\<close>

record Counter =
  shared_count :: size_t
  weak_count :: size_t

text \<open>
  Both classes declare the same two fields, \<open>T* ptr_\<close> and \<open>Counter* counter\<close>; the
  store keeps \<open>SharedPtr\<close> objects and \<open>WeakPtr\<close> objects in separate tables.
\<close>

record handle =
  ptr :: "addr option"
  counter :: "addr option"

type_synonym SharedPtr = handle

type_synonym WeakPtr = handle

text \<open>The two \<open>delete\<close> expressions of the header, logged in program order.\<close>

datatype event = Freed_counter addr | Destroyed_object addr

record world =
  sptrs :: "slot \<Rightarrow> SharedPtr option"
  wptrs :: "slot \<Rightarrow> WeakPtr option"
  counters :: "addr \<Rightarrow> Counter option"
  objects :: "addr set"
  brk :: addr
  events :: "event list"

text \<open>
  A call returns a value in a new store, throws \<open>std::bad_weak_ptr\<close> in a store, or has
  undefined behaviour (null or dangling pointer dereferenced, object deleted twice,
  method called on an object that does not exist).
\<close>

datatype exn = bad_weak_ptr

datatype 'a outcome = Returns 'a world | Throws exn world | Undefined

definition and_then :: "'a outcome \<Rightarrow> ('a \<Rightarrow> world \<Rightarrow> 'b outcome) \<Rightarrow> 'b outcome" where
  "and_then m f = (case m of Returns x w \<Rightarrow> f x w | Throws e w \<Rightarrow> Throws e w | Undefined \<Rightarrow> Undefined)"

definition nullptr :: handle where
  "nullptr = \<lparr>ptr = None, counter = None\<rparr>"

section \<open>Heap primitives\<close>

text \<open>
  \<open>new Counter\<close> and \<open>new T\<close> return an address never used before. The argument of
  \<open>new_Counter\<close> is the content of the block once the constructor body has run (a
  field the body never assigns keeps whatever the caller passes for it).
\<close>

definition new_Counter :: "Counter \<Rightarrow> world \<Rightarrow> addr outcome" where
  "new_Counter k w =
     Returns (brk w) (w\<lparr>counters := (counters w)(brk w \<mapsto> k), brk := Suc (brk w)\<rparr>)"

definition new_T :: "world \<Rightarrow> addr outcome" where
  "new_T w = Returns (brk w) (w\<lparr>objects := insert (brk w) (objects w), brk := Suc (brk w)\<rparr>)"

text \<open>\<open>delete counter\<close>, for a non-null \<open>counter\<close>.\<close>

definition delete_counter :: "addr \<Rightarrow> world \<Rightarrow> unit outcome" where
  "delete_counter c w =
     (case counters w c of
        None \<Rightarrow> Undefined
      | Some k \<Rightarrow> Returns () (w\<lparr>counters := (counters w)(c := None),
                                events := events w @ [Freed_counter c]\<rparr>))"

text \<open>\<open>delete ptr_\<close>: nothing for a null pointer, undefined for a dead object.\<close>

definition delete_ptr :: "addr option \<Rightarrow> world \<Rightarrow> unit outcome" where
  "delete_ptr p w =
     (case p of
        None \<Rightarrow> Returns () w
      | Some a \<Rightarrow>
          if a \<in> objects w
          then Returns () (w\<lparr>objects := objects w - {a},
                             events := events w @ [Destroyed_object a]\<rparr>)
          else Undefined)"

text \<open>\<open>++counter->shared_count_\<close> and \<open>++counter->weak_count_\<close>, without a null guard.\<close>

definition inc_shared :: "addr option \<Rightarrow> world \<Rightarrow> unit outcome" where
  "inc_shared p w =
     (case p of
        None \<Rightarrow> Undefined
      | Some c \<Rightarrow>
          (case counters w c of
             None \<Rightarrow> Undefined
           | Some k \<Rightarrow>
               Returns () (w\<lparr>counters := (counters w)(c \<mapsto> k\<lparr>shared_count := shared_count k + 1\<rparr>)\<rparr>)))"

definition inc_weak :: "addr option \<Rightarrow> world \<Rightarrow> unit outcome" where
  "inc_weak p w =
     (case p of
        None \<Rightarrow> Undefined
      | Some c \<Rightarrow>
          (case counters w c of
             None \<Rightarrow> Undefined
           | Some k \<Rightarrow>
               Returns () (w\<lparr>counters := (counters w)(c \<mapsto> k\<lparr>weak_count := weak_count k + 1\<rparr>)\<rparr>)))"

section \<open>\<open>SharedPtr<T>\<close>\<close>

text \<open>\<open>SharedPtr() : ptr_(nullptr), counter(nullptr) {}\<close>\<close>

definition SharedPtr_default :: "slot \<Rightarrow> world \<Rightarrow> unit outcome" where
  "SharedPtr_default this w = Returns () (w\<lparr>sptrs := (sptrs w)(this \<mapsto> nullptr)\<rparr>)"

text \<open>
  \<open>SharedPtr(T* ptr)\<close>: a new block with \<open>shared_count_ = ptr ? 1 : 0\<close> and
  \<open>weak_count_ = 0\<close>.
\<close>

definition SharedPtr_raw :: "slot \<Rightarrow> addr option \<Rightarrow> world \<Rightarrow> unit outcome" where
  "SharedPtr_raw this p w =
     and_then (new_Counter \<lparr>shared_count = (if p \<noteq> None then 1 else 0), weak_count = 0\<rparr> w)
       (\<lambda>c w1. Returns () (w1\<lparr>sptrs := (sptrs w1)(this \<mapsto> \<lparr>ptr = p, counter = Some c\<rparr>)\<rparr>))"

text \<open>
  \<open>SharedPtr(const SharedPtr& other)\<close>: copies both fields, then increments through
  \<open>counter\<close> with no null check.
\<close>

definition SharedPtr_copy :: "slot \<Rightarrow> slot \<Rightarrow> world \<Rightarrow> unit outcome" where
  "SharedPtr_copy this other w =
     (case sptrs w other of
        None \<Rightarrow> Undefined
      | Some ot \<Rightarrow>
          inc_shared (counter ot)
            (w\<lparr>sptrs := (sptrs w)(this \<mapsto> \<lparr>ptr = ptr ot, counter = counter ot\<rparr>)\<rparr>))"

text \<open>
  \<open>SharedPtr(const SharedPtr&& other)\<close> and \<open>template <U> SharedPtr(SharedPtr<U>&& other)\<close>
  have the same body: take both fields, null the source.
\<close>

definition SharedPtr_move :: "slot \<Rightarrow> slot \<Rightarrow> world \<Rightarrow> unit outcome" where
  "SharedPtr_move this other w =
     (case sptrs w other of
        None \<Rightarrow> Undefined
      | Some ot \<Rightarrow>
          Returns () (w\<lparr>sptrs := (sptrs w)(this \<mapsto> \<lparr>ptr = ptr ot, counter = counter ot\<rparr>,
                                             other \<mapsto> nullptr)\<rparr>))"

text \<open>\<open>bool WeakPtr::Expired() const\<close>\<close>

definition WeakPtr_Expired :: "slot \<Rightarrow> world \<Rightarrow> bool outcome" where
  "WeakPtr_Expired this w =
     (case wptrs w this of
        None \<Rightarrow> Undefined
      | Some t \<Rightarrow>
          (case counter t of
             None \<Rightarrow> Returns True w
           | Some c \<Rightarrow>
               (case counters w c of
                  None \<Rightarrow> Undefined
                | Some k \<Rightarrow> Returns (shared_count k = 0) w)))"

text \<open>
  \<open>SharedPtr(const WeakPtr<T>& other)\<close>: the fields are initialised, then
  \<open>if (other.Expired()) throw std::bad_weak_ptr();\<close> abandons the construction (no
  object comes to exist in \<open>this\<close>), else \<open>if (counter) ++counter->shared_count_;\<close>.
\<close>

definition SharedPtr_from_weak :: "slot \<Rightarrow> slot \<Rightarrow> world \<Rightarrow> unit outcome" where
  "SharedPtr_from_weak this other w =
     (case wptrs w other of
        None \<Rightarrow> Undefined
      | Some ot \<Rightarrow>
          and_then (WeakPtr_Expired other w)
            (\<lambda>expired w1.
               if expired then Throws bad_weak_ptr w1
               else
                 (let w2 = w1\<lparr>sptrs := (sptrs w1)(this \<mapsto> \<lparr>ptr = ptr ot, counter = counter ot\<rparr>)\<rparr>
                  in if counter ot \<noteq> None then inc_shared (counter ot) w2 else Returns () w2)))"

text \<open>
  \<open>void SharedPtr::DecreaseAndDelete()\<close>, on the fields \<open>t\<close> of \<open>*this\<close> (the method
  reads them and never writes them). In the branch where both counts are zero the
  source deletes \<open>counter\<close> first and \<open>ptr_\<close> second.
\<close>

definition SharedPtr_DecreaseAndDelete :: "SharedPtr \<Rightarrow> world \<Rightarrow> unit outcome" where
  "SharedPtr_DecreaseAndDelete t w =
     (case counter t of
        None \<Rightarrow> Returns () w
      | Some c \<Rightarrow>
          (case counters w c of
             None \<Rightarrow> Undefined
           | Some k \<Rightarrow>
               (let k1 = (if shared_count k > 0 then k\<lparr>shared_count := shared_count k - 1\<rparr> else k);
                    w1 = w\<lparr>counters := (counters w)(c \<mapsto> k1)\<rparr>
                in if shared_count k1 = 0 \<and> weak_count k1 = 0
                   then and_then (delete_counter c w1) (\<lambda>_. delete_ptr (ptr t))
                   else if shared_count k1 = 0 then delete_ptr (ptr t) w1
                   else Returns () w1)))"

text \<open>\<open>~SharedPtr() { DecreaseAndDelete(); }\<close>, after which the object is gone.\<close>

definition SharedPtr_dtor :: "slot \<Rightarrow> world \<Rightarrow> unit outcome" where
  "SharedPtr_dtor this w =
     (case sptrs w this of
        None \<Rightarrow> Undefined
      | Some t \<Rightarrow>
          and_then (SharedPtr_DecreaseAndDelete t w)
            (\<lambda>_ w1. Returns () (w1\<lparr>sptrs := (sptrs w1)(this := None)\<rparr>)))"

text \<open>\<open>SharedPtr& operator=(const SharedPtr& other)\<close>\<close>

definition SharedPtr_assign :: "slot \<Rightarrow> slot \<Rightarrow> world \<Rightarrow> unit outcome" where
  "SharedPtr_assign this other w =
     (case (sptrs w this, sptrs w other) of
        (Some t, Some ot) \<Rightarrow>
          if this = other then Returns () w
          else
            and_then (SharedPtr_DecreaseAndDelete t w)
              (\<lambda>_ w1.
                 (let w2 = w1\<lparr>sptrs := (sptrs w1)(this \<mapsto> \<lparr>ptr = ptr ot, counter = counter ot\<rparr>)\<rparr>
                  in if counter ot \<noteq> None then inc_shared (counter ot) w2 else Returns () w2))
      | _ \<Rightarrow> Undefined)"

text \<open>\<open>SharedPtr& operator=(SharedPtr&& other)\<close>\<close>

definition SharedPtr_move_assign :: "slot \<Rightarrow> slot \<Rightarrow> world \<Rightarrow> unit outcome" where
  "SharedPtr_move_assign this other w =
     (case (sptrs w this, sptrs w other) of
        (Some t, Some ot) \<Rightarrow>
          if this = other then Returns () w
          else
            and_then (SharedPtr_DecreaseAndDelete t w)
              (\<lambda>_ w1.
                 Returns () (w1\<lparr>sptrs := (sptrs w1)(this \<mapsto> \<lparr>ptr = ptr ot, counter = counter ot\<rparr>,
                                                      other \<mapsto> nullptr)\<rparr>))
      | _ \<Rightarrow> Undefined)"

text \<open>\<open>void Reset(T* ptr = nullptr)\<close>\<close>

definition SharedPtr_Reset :: "slot \<Rightarrow> addr option \<Rightarrow> world \<Rightarrow> unit outcome" where
  "SharedPtr_Reset this p w =
     (case sptrs w this of
        None \<Rightarrow> Undefined
      | Some t \<Rightarrow>
          and_then (SharedPtr_DecreaseAndDelete t w)
            (\<lambda>_ w1.
               and_then (new_Counter \<lparr>shared_count = (if p \<noteq> None then 1 else 0), weak_count = 0\<rparr> w1)
                 (\<lambda>c w2. Returns () (w2\<lparr>sptrs := (sptrs w2)(this \<mapsto> \<lparr>ptr = p, counter = Some c\<rparr>)\<rparr>))))"

text \<open>\<open>void Swap(SharedPtr<T>& other)\<close>\<close>

definition SharedPtr_Swap :: "slot \<Rightarrow> slot \<Rightarrow> world \<Rightarrow> unit outcome" where
  "SharedPtr_Swap this other w =
     (case (sptrs w this, sptrs w other) of
        (Some t, Some ot) \<Rightarrow> Returns () (w\<lparr>sptrs := (sptrs w)(this \<mapsto> ot, other \<mapsto> t)\<rparr>)
      | _ \<Rightarrow> Undefined)"

text \<open>\<open>T* Get() const\<close>\<close>

definition SharedPtr_Get :: "slot \<Rightarrow> world \<Rightarrow> addr option outcome" where
  "SharedPtr_Get this w =
     (case sptrs w this of None \<Rightarrow> Undefined | Some t \<Rightarrow> Returns (ptr t) w)"

text \<open>\<open>size_t UseCount() const\<close>\<close>

definition SharedPtr_UseCount :: "slot \<Rightarrow> world \<Rightarrow> size_t outcome" where
  "SharedPtr_UseCount this w =
     (case sptrs w this of
        None \<Rightarrow> Undefined
      | Some t \<Rightarrow>
          (case counter t of
             None \<Rightarrow> Returns 0 w
           | Some c \<Rightarrow>
               (case counters w c of
                  None \<Rightarrow> Undefined
                | Some k \<Rightarrow> Returns (shared_count k) w)))"

text \<open>\<open>operator bool() const { return counter && counter->shared_count_ != 0; }\<close>\<close>

definition SharedPtr_bool :: "slot \<Rightarrow> world \<Rightarrow> bool outcome" where
  "SharedPtr_bool this w =
     (case sptrs w this of
        None \<Rightarrow> Undefined
      | Some t \<Rightarrow>
          (case counter t of
             None \<Rightarrow> Returns False w
           | Some c \<Rightarrow>
               (case counters w c of
                  None \<Rightarrow> Undefined
                | Some k \<Rightarrow> Returns (shared_count k \<noteq> 0) w)))"

text \<open>\<open>MakeShared<T>(args...)\<close>: \<open>SharedPtr<T>(new T(...))\<close>, built in the slot \<open>ret\<close>.\<close>

definition MakeShared :: "slot \<Rightarrow> world \<Rightarrow> unit outcome" where
  "MakeShared ret w = and_then (new_T w) (\<lambda>a. SharedPtr_raw ret (Some a))"

section \<open>\<open>WeakPtr<T>\<close>\<close>

text \<open>\<open>WeakPtr() : ptr_(nullptr), counter(nullptr) {}\<close>\<close>

definition WeakPtr_default :: "slot \<Rightarrow> world \<Rightarrow> unit outcome" where
  "WeakPtr_default this w = Returns () (w\<lparr>wptrs := (wptrs w)(this \<mapsto> nullptr)\<rparr>)"

text \<open>
  \<open>WeakPtr(T* ptr)\<close>: the body assigns \<open>counter->shared_count_ = 0\<close> and then
  \<open>counter->weak_counter_ = ptr ? 1 : 0\<close>. \<open>Counter\<close> has no field \<open>weak_counter_\<close>, so
  \<open>weak_count_\<close> of the new block is never assigned: it keeps the indeterminate value
  \<open>junk\<close> that \<open>new Counter\<close> left there.
\<close>

definition WeakPtr_raw :: "size_t \<Rightarrow> slot \<Rightarrow> addr option \<Rightarrow> world \<Rightarrow> unit outcome" where
  "WeakPtr_raw junk this p w =
     and_then (new_Counter \<lparr>shared_count = 0, weak_count = junk\<rparr> w)
       (\<lambda>c w1. Returns () (w1\<lparr>wptrs := (wptrs w1)(this \<mapsto> \<lparr>ptr = p, counter = Some c\<rparr>)\<rparr>))"

text \<open>\<open>WeakPtr(const WeakPtr& other)\<close>\<close>

definition WeakPtr_copy :: "slot \<Rightarrow> slot \<Rightarrow> world \<Rightarrow> unit outcome" where
  "WeakPtr_copy this other w =
     (case wptrs w other of
        None \<Rightarrow> Undefined
      | Some ot \<Rightarrow>
          (let w1 = w\<lparr>wptrs := (wptrs w)(this \<mapsto> \<lparr>ptr = ptr ot, counter = counter ot\<rparr>)\<rparr>
           in if counter ot \<noteq> None then inc_weak (counter ot) w1 else Returns () w1))"

text \<open>\<open>WeakPtr(WeakPtr&& other)\<close>\<close>

definition WeakPtr_move :: "slot \<Rightarrow> slot \<Rightarrow> world \<Rightarrow> unit outcome" where
  "WeakPtr_move this other w =
     (case wptrs w other of
        None \<Rightarrow> Undefined
      | Some ot \<Rightarrow>
          Returns () (w\<lparr>wptrs := (wptrs w)(this \<mapsto> \<lparr>ptr = ptr ot, counter = counter ot\<rparr>,
                                             other \<mapsto> nullptr)\<rparr>))"

text \<open>\<open>WeakPtr(const SharedPtr<T>& other)\<close>\<close>

definition WeakPtr_from_shared :: "slot \<Rightarrow> slot \<Rightarrow> world \<Rightarrow> unit outcome" where
  "WeakPtr_from_shared this other w =
     (case sptrs w other of
        None \<Rightarrow> Undefined
      | Some ot \<Rightarrow>
          (let w1 = w\<lparr>wptrs := (wptrs w)(this \<mapsto> \<lparr>ptr = ptr ot, counter = counter ot\<rparr>)\<rparr>
           in if counter ot \<noteq> None then inc_weak (counter ot) w1 else Returns () w1))"

text \<open>\<open>void WeakPtr::DecreaseAndDelete()\<close>, on the fields \<open>t\<close> of \<open>*this\<close>.\<close>

definition WeakPtr_DecreaseAndDelete :: "WeakPtr \<Rightarrow> world \<Rightarrow> unit outcome" where
  "WeakPtr_DecreaseAndDelete t w =
     (case counter t of
        None \<Rightarrow> Returns () w
      | Some c \<Rightarrow>
          (case counters w c of
             None \<Rightarrow> Undefined
           | Some k \<Rightarrow>
               (let k1 = (if weak_count k > 0 then k\<lparr>weak_count := weak_count k - 1\<rparr> else k);
                    w1 = w\<lparr>counters := (counters w)(c \<mapsto> k1)\<rparr>
                in if weak_count k1 = 0 \<and> shared_count k1 = 0
                   then delete_counter c w1
                   else Returns () w1)))"

text \<open>\<open>~WeakPtr() { DecreaseAndDelete(); }\<close>\<close>

definition WeakPtr_dtor :: "slot \<Rightarrow> world \<Rightarrow> unit outcome" where
  "WeakPtr_dtor this w =
     (case wptrs w this of
        None \<Rightarrow> Undefined
      | Some t \<Rightarrow>
          and_then (WeakPtr_DecreaseAndDelete t w)
            (\<lambda>_ w1. Returns () (w1\<lparr>wptrs := (wptrs w1)(this := None)\<rparr>)))"

text \<open>\<open>WeakPtr& operator=(const WeakPtr& other)\<close>\<close>

definition WeakPtr_assign :: "slot \<Rightarrow> slot \<Rightarrow> world \<Rightarrow> unit outcome" where
  "WeakPtr_assign this other w =
     (case (wptrs w this, wptrs w other) of
        (Some t, Some ot) \<Rightarrow>
          if this = other then Returns () w
          else
            and_then (WeakPtr_DecreaseAndDelete t w)
              (\<lambda>_ w1.
                 (let w2 = w1\<lparr>wptrs := (wptrs w1)(this \<mapsto> \<lparr>ptr = ptr ot, counter = counter ot\<rparr>)\<rparr>
                  in if counter ot \<noteq> None then inc_weak (counter ot) w2 else Returns () w2))
      | _ \<Rightarrow> Undefined)"

text \<open>\<open>WeakPtr& operator=(WeakPtr&& other)\<close>\<close>

definition WeakPtr_move_assign :: "slot \<Rightarrow> slot \<Rightarrow> world \<Rightarrow> unit outcome" where
  "WeakPtr_move_assign this other w =
     (case (wptrs w this, wptrs w other) of
        (Some t, Some ot) \<Rightarrow>
          if this = other then Returns () w
          else
            and_then (WeakPtr_DecreaseAndDelete t w)
              (\<lambda>_ w1.
                 Returns () (w1\<lparr>wptrs := (wptrs w1)(this \<mapsto> \<lparr>ptr = ptr ot, counter = counter ot\<rparr>,
                                                      other \<mapsto> nullptr)\<rparr>))
      | _ \<Rightarrow> Undefined)"

text \<open>
  \<open>template <U> WeakPtr(WeakPtr<U>&& other) { *this = other; ++counter->weak_count_; }\<close>.
  No member initialiser runs, so the fields of \<open>*this\<close> hold the indeterminate value
  \<open>junk\<close> when \<open>*this = other\<close> calls the copy assignment (\<open>other\<close> is named, hence an
  lvalue); the increment that follows has no null guard. The source is never nulled.
\<close>

definition WeakPtr_conv_move :: "handle \<Rightarrow> slot \<Rightarrow> slot \<Rightarrow> world \<Rightarrow> unit outcome" where
  "WeakPtr_conv_move junk this other w =
     and_then (WeakPtr_assign this other (w\<lparr>wptrs := (wptrs w)(this \<mapsto> junk)\<rparr>))
       (\<lambda>_ w1.
          (case wptrs w1 this of
             None \<Rightarrow> Undefined
           | Some t \<Rightarrow> inc_weak (counter t) w1))"

text \<open>\<open>void Swap(WeakPtr<T>& other)\<close>\<close>

definition WeakPtr_Swap :: "slot \<Rightarrow> slot \<Rightarrow> world \<Rightarrow> unit outcome" where
  "WeakPtr_Swap this other w =
     (case (wptrs w this, wptrs w other) of
        (Some t, Some ot) \<Rightarrow> Returns () (w\<lparr>wptrs := (wptrs w)(this \<mapsto> ot, other \<mapsto> t)\<rparr>)
      | _ \<Rightarrow> Undefined)"

text \<open>
  \<open>void WeakPtr::Reset()\<close>: \<open>--counter->weak_count_\<close> with no \<open>> 0\<close> guard and no
  \<open>delete counter\<close>, then both fields are nulled.
\<close>

definition WeakPtr_Reset :: "slot \<Rightarrow> world \<Rightarrow> unit outcome" where
  "WeakPtr_Reset this w =
     (case wptrs w this of
        None \<Rightarrow> Undefined
      | Some t \<Rightarrow>
          (case counter t of
             None \<Rightarrow> Returns () w
           | Some c \<Rightarrow>
               (case counters w c of
                  None \<Rightarrow> Undefined
                | Some k \<Rightarrow>
                    Returns () (w\<lparr>counters := (counters w)(c \<mapsto> k\<lparr>weak_count := weak_count k - 1\<rparr>),
                                  wptrs := (wptrs w)(this \<mapsto> nullptr)\<rparr>))))"

text \<open>\<open>size_t WeakPtr::UseCount() const\<close>\<close>

definition WeakPtr_UseCount :: "slot \<Rightarrow> world \<Rightarrow> size_t outcome" where
  "WeakPtr_UseCount this w =
     (case wptrs w this of
        None \<Rightarrow> Undefined
      | Some t \<Rightarrow>
          (case counter t of
             None \<Rightarrow> Returns 0 w
           | Some c \<Rightarrow>
               (case counters w c of
                  None \<Rightarrow> Undefined
                | Some k \<Rightarrow> Returns (shared_count k) w)))"

text \<open>
  \<open>SharedPtr<T> Lock() const\<close>: \<open>return nullptr\<close> converts through \<open>SharedPtr(T*)\<close>;
  otherwise the local \<open>SharedPtr<T> ptr(*this)\<close> is returned. The returned handle is
  built in the slot \<open>ret\<close>.
\<close>

definition WeakPtr_Lock :: "slot \<Rightarrow> slot \<Rightarrow> world \<Rightarrow> unit outcome" where
  "WeakPtr_Lock this ret w =
     and_then (WeakPtr_Expired this w)
       (\<lambda>expired w1.
          if expired then SharedPtr_raw ret None w1
          else SharedPtr_from_weak ret this w1)"

section \<open>Running programs\<close>

text \<open>The store before anything is allocated or declared.\<close>

definition init :: world where
  "init = \<lparr>sptrs = (\<lambda>_. None), wptrs = (\<lambda>_. None), counters = (\<lambda>_. None),
            objects = {}, brk = 0, events = []\<rparr>"

text \<open>Statements in sequence; an exception or undefined behaviour ends the run.\<close>

fun run :: "(world \<Rightarrow> unit outcome) list \<Rightarrow> world \<Rightarrow> unit outcome" where
  "run [] w = Returns () w"
| "run (f # fs) w = and_then (f w) (\<lambda>_. run fs)"

text \<open>\<open>precedes x y xs\<close>: \<open>y\<close> occurs in \<open>xs\<close> after the first \<open>x\<close>.\<close>

definition precedes :: "'a \<Rightarrow> 'a \<Rightarrow> 'a list \<Rightarrow> bool" where
  "precedes x y xs = (y \<in> set (dropWhile (\<lambda>z. z \<noteq> x) xs))"

text \<open>
  Three stores that short programs reach from \<open>init\<close> (lemmas \<open>sole_run\<close>,
  \<open>observed_run\<close>, \<open>zombie_run\<close>): one strong handle; one strong and one weak handle;
  the weak handle alone after the strong one is gone.
\<close>

definition sole :: world where
  "sole = \<lparr>sptrs = (\<lambda>_. None)(0 \<mapsto> \<lparr>ptr = Some 0, counter = Some 1\<rparr>),
            wptrs = (\<lambda>_. None),
            counters = (\<lambda>_. None)(1 \<mapsto> \<lparr>shared_count = 1, weak_count = 0\<rparr>),
            objects = {0}, brk = 2, events = []\<rparr>"

definition observed :: world where
  "observed = \<lparr>sptrs = (\<lambda>_. None)(0 \<mapsto> \<lparr>ptr = Some 0, counter = Some 1\<rparr>),
                wptrs = (\<lambda>_. None)(0 \<mapsto> \<lparr>ptr = Some 0, counter = Some 1\<rparr>),
                counters = (\<lambda>_. None)(1 \<mapsto> \<lparr>shared_count = 1, weak_count = 1\<rparr>),
                objects = {0}, brk = 2, events = []\<rparr>"

definition zombie :: world where
  "zombie = \<lparr>sptrs = (\<lambda>_. None),
              wptrs = (\<lambda>_. None)(0 \<mapsto> \<lparr>ptr = Some 0, counter = Some 1\<rparr>),
              counters = (\<lambda>_. None)(1 \<mapsto> \<lparr>shared_count = 0, weak_count = 1\<rparr>),
              objects = {}, brk = 2, events = [Destroyed_object 0]\<rparr>"

text \<open>Two default-constructed strong handles: \<open>SharedPtr<T> a, b;\<close>\<close>

definition blank :: world where
  "blank = \<lparr>sptrs = (\<lambda>_. None)(0 \<mapsto> nullptr, 1 \<mapsto> nullptr),
             wptrs = (\<lambda>_. None), counters = (\<lambda>_. None),
             objects = {}, brk = 0, events = []\<rparr>"

text \<open>A strong handle built from a null raw pointer: \<open>SharedPtr<T> a(nullptr);\<close>\<close>

definition null_owner :: world where
  "null_owner = \<lparr>sptrs = (\<lambda>_. None)(0 \<mapsto> \<lparr>ptr = None, counter = Some 0\<rparr>),
                  wptrs = (\<lambda>_. None),
                  counters = (\<lambda>_. None)(0 \<mapsto> \<lparr>shared_count = 0, weak_count = 0\<rparr>),
                  objects = {}, brk = 1, events = []\<rparr>"

text \<open>
  Two strong handles on the block of a null raw pointer:
  \<open>SharedPtr<T> a(nullptr); SharedPtr<T> b(a);\<close>
\<close>

definition null_pair :: world where
  "null_pair = \<lparr>sptrs = (\<lambda>_. None)(0 \<mapsto> \<lparr>ptr = None, counter = Some 0\<rparr>,
                                       1 \<mapsto> \<lparr>ptr = None, counter = Some 0\<rparr>),
                 wptrs = (\<lambda>_. None),
                 counters = (\<lambda>_. None)(0 \<mapsto> \<lparr>shared_count = 1, weak_count = 0\<rparr>),
                 objects = {}, brk = 1, events = []\<rparr>"

text \<open>The same after \<open>b\<close> is destroyed: the block is freed and \<open>a\<close> still points to it.\<close>

definition null_dangling :: world where
  "null_dangling = \<lparr>sptrs = (\<lambda>_. None)(0 \<mapsto> \<lparr>ptr = None, counter = Some 0\<rparr>),
                     wptrs = (\<lambda>_. None),
                     counters = (\<lambda>_. None),
                     objects = {}, brk = 1, events = [Freed_counter 0]\<rparr>"



section \<open>Programs over the two classes\<close>

text \<open>
  One statement of a client program. The first slot is the object the statement
  declares or acts on (\<open>this\<close>), the second its argument. Two members are left out
  because no program can call them: \<open>WeakPtr(T*)\<close> names a field that \<open>Counter\<close> does
  not have, and \<open>WeakPtr(WeakPtr<U>&&)\<close> is never selected for \<open>U = T\<close> and does not
  compile for any other \<open>U\<close>. A raw pointer handed to a constructor or to \<open>Reset\<close> is
  null or comes from a \<open>new\<close> of its own.
\<close>

datatype op =
    S_default slot
  | S_null slot
  | S_make slot
  | S_copy slot slot
  | S_move slot slot
  | S_from_weak slot slot
  | S_dtor slot
  | S_assign slot slot
  | S_move_assign slot slot
  | S_reset slot
  | S_reset_new slot
  | S_swap slot slot
  | W_default slot
  | W_copy slot slot
  | W_move slot slot
  | W_from_shared slot slot
  | W_dtor slot
  | W_assign slot slot
  | W_move_assign slot slot
  | W_swap slot slot
  | W_reset slot
  | W_lock slot slot

fun exec :: "op \<Rightarrow> world \<Rightarrow> unit outcome" where
  "exec (S_default s) w = SharedPtr_default s w"
| "exec (S_null s) w = SharedPtr_raw s None w"
| "exec (S_make s) w = MakeShared s w"
| "exec (S_copy s other) w = SharedPtr_copy s other w"
| "exec (S_move s other) w = SharedPtr_move s other w"
| "exec (S_from_weak s other) w = SharedPtr_from_weak s other w"
| "exec (S_dtor s) w = SharedPtr_dtor s w"
| "exec (S_assign s other) w = SharedPtr_assign s other w"
| "exec (S_move_assign s other) w = SharedPtr_move_assign s other w"
| "exec (S_reset s) w = SharedPtr_Reset s None w"
| "exec (S_reset_new s) w = and_then (new_T w) (\<lambda>a. SharedPtr_Reset s (Some a))"
| "exec (S_swap s other) w = SharedPtr_Swap s other w"
| "exec (W_default s) w = WeakPtr_default s w"
| "exec (W_copy s other) w = WeakPtr_copy s other w"
| "exec (W_move s other) w = WeakPtr_move s other w"
| "exec (W_from_shared s other) w = WeakPtr_from_shared s other w"
| "exec (W_dtor s) w = WeakPtr_dtor s w"
| "exec (W_assign s other) w = WeakPtr_assign s other w"
| "exec (W_move_assign s other) w = WeakPtr_move_assign s other w"
| "exec (W_swap s other) w = WeakPtr_Swap s other w"
| "exec (W_reset s) w = WeakPtr_Reset s w"
| "exec (W_lock s ret) w = WeakPtr_Lock s ret w"

text \<open>The statements that act on a \<open>WeakPtr\<close> (\<open>Lock\<close> is a member of \<open>WeakPtr\<close>).\<close>

fun weak_op :: "op \<Rightarrow> bool" where
  "weak_op (W_default s) = True"
| "weak_op (W_copy s other) = True"
| "weak_op (W_move s other) = True"
| "weak_op (W_from_shared s other) = True"
| "weak_op (W_dtor s) = True"
| "weak_op (W_assign s other) = True"
| "weak_op (W_move_assign s other) = True"
| "weak_op (W_swap s other) = True"
| "weak_op (W_reset s) = True"
| "weak_op (W_lock s ret) = True"
| "weak_op _ = False"

text \<open>
  The names of a statement are in scope: a declaration names a slot that holds no
  object, every other statement names objects that exist.
\<close>

fun declared :: "world \<Rightarrow> op \<Rightarrow> bool" where
  "declared w (S_default s) = (sptrs w s = None)"
| "declared w (S_null s) = (sptrs w s = None)"
| "declared w (S_make s) = (sptrs w s = None)"
| "declared w (S_copy s other) = (sptrs w s = None \<and> sptrs w other \<noteq> None)"
| "declared w (S_move s other) = (sptrs w s = None \<and> sptrs w other \<noteq> None)"
| "declared w (S_from_weak s other) = (sptrs w s = None \<and> wptrs w other \<noteq> None)"
| "declared w (S_dtor s) = (sptrs w s \<noteq> None)"
| "declared w (S_assign s other) = (sptrs w s \<noteq> None \<and> sptrs w other \<noteq> None)"
| "declared w (S_move_assign s other) = (sptrs w s \<noteq> None \<and> sptrs w other \<noteq> None)"
| "declared w (S_reset s) = (sptrs w s \<noteq> None)"
| "declared w (S_reset_new s) = (sptrs w s \<noteq> None)"
| "declared w (S_swap s other) = (sptrs w s \<noteq> None \<and> sptrs w other \<noteq> None)"
| "declared w (W_default s) = (wptrs w s = None)"
| "declared w (W_copy s other) = (wptrs w s = None \<and> wptrs w other \<noteq> None)"
| "declared w (W_move s other) = (wptrs w s = None \<and> wptrs w other \<noteq> None)"
| "declared w (W_from_shared s other) = (wptrs w s = None \<and> sptrs w other \<noteq> None)"
| "declared w (W_dtor s) = (wptrs w s \<noteq> None)"
| "declared w (W_assign s other) = (wptrs w s \<noteq> None \<and> wptrs w other \<noteq> None)"
| "declared w (W_move_assign s other) = (wptrs w s \<noteq> None \<and> wptrs w other \<noteq> None)"
| "declared w (W_swap s other) = (wptrs w s \<noteq> None \<and> wptrs w other \<noteq> None)"
| "declared w (W_reset s) = (wptrs w s \<noteq> None)"
| "declared w (W_lock s ret) = (wptrs w s \<noteq> None \<and> sptrs w ret = None)"

text \<open>
  What a client may execute in a store: a statement whose names are in scope and whose
  behaviour is defined there, that is, every statement that the source runs to a return
  or to a throw. The statements left out dereference a null control pointer (the copy
  constructor on an empty handle) or a control block that has been freed.
\<close>

definition permitted :: "world \<Rightarrow> op \<Rightarrow> bool" where
  "permitted w x \<longleftrightarrow> declared w x \<and> exec x w \<noteq> Undefined"

text \<open>
  The stores a client program can be in: \<open>init\<close>, and the store after every permitted
  statement that returns or throws.
\<close>

inductive reachable :: "world \<Rightarrow> bool" where
  start: "reachable init"
| returns: "reachable w \<Longrightarrow> permitted w x \<Longrightarrow> exec x w = Returns () w' \<Longrightarrow> reachable w'"
| throws: "reachable w \<Longrightarrow> permitted w x \<Longrightarrow> exec x w = Throws e w' \<Longrightarrow> reachable w'"

section \<open>Counting handles\<close>

text \<open>The slots of a table whose handle points to the control block \<open>c\<close>.\<close>

definition sharers :: "(slot \<Rightarrow> handle option) \<Rightarrow> addr \<Rightarrow> slot set" where
  "sharers m c = {s. \<exists>h. m s = Some h \<and> counter h = Some c}"

text \<open>
  The strong count stored in a control block, read as a number; a block that is not
  allocated counts zero (the source frees a block only when the count in it is zero).
\<close>

definition strong_count :: "world \<Rightarrow> addr \<Rightarrow> nat" where
  "strong_count w c = (case counters w c of None \<Rightarrow> 0 | Some k \<Rightarrow> unat (shared_count k))"

section \<open>The invariant of reachable stores\<close>

text \<open>
  Allocation: addresses in use are below the break; the log holds each delete once,
  and what it names is gone.
\<close>

definition heap_ok :: "world \<Rightarrow> bool" where
  "heap_ok w \<longleftrightarrow>
     (\<forall>c. counters w c \<noteq> None \<longrightarrow> c < brk w) \<and>
     (\<forall>a. a \<in> objects w \<longrightarrow> a < brk w) \<and>
     distinct (events w) \<and>
     (\<forall>c. Freed_counter c \<in> set (events w) \<longrightarrow> c < brk w \<and> counters w c = None) \<and>
     (\<forall>a. Destroyed_object a \<in> set (events w) \<longrightarrow> a < brk w \<and> a \<notin> objects w)"

text \<open>
  A strong handle is empty, or points to a control block that was allocated; when its
  pointer is not null, the object is alive and the block is still allocated. (A handle
  with a null pointer may outlive its block: the block of \<open>SharedPtr(nullptr)\<close> starts
  with strong count 0, and the release of a copy frees it.)
\<close>

definition strong_ok :: "world \<Rightarrow> handle \<Rightarrow> bool" where
  "strong_ok w h =
     (case counter h of
        None \<Rightarrow> ptr h = None
      | Some c \<Rightarrow>
          c < brk w \<and>
          (case ptr h of
             None \<Rightarrow> True
           | Some a \<Rightarrow> a \<in> objects w \<and> counters w c \<noteq> None))"

text \<open>
  A weak handle is empty, or points to an allocated block; its pointer is null or the
  address of an object that was allocated.
\<close>

definition weak_ok :: "world \<Rightarrow> handle \<Rightarrow> bool" where
  "weak_ok w h =
     (case counter h of
        None \<Rightarrow> ptr h = None
      | Some c \<Rightarrow> counters w c \<noteq> None \<and> (case ptr h of None \<Rightarrow> True | Some a \<Rightarrow> a < brk w))"

text \<open>The control block \<open>c\<close> belongs to an object: a handle on it holds a pointer that is not null.\<close>

definition object_block :: "world \<Rightarrow> addr \<Rightarrow> bool" where
  "object_block w c \<longleftrightarrow>
     (\<exists>h. (h \<in> ran (sptrs w) \<or> h \<in> ran (wptrs w)) \<and> counter h = Some c \<and> ptr h \<noteq> None)"

text \<open>
  The counts of an allocated block: the weak count is the number of weak handles on the
  block; the strong count is at most the number of strong handles on the block, and
  equal to it when the block belongs to an object.
\<close>

definition block_ok :: "world \<Rightarrow> addr \<Rightarrow> Counter \<Rightarrow> bool" where
  "block_ok w c k \<longleftrightarrow>
     unat (weak_count k) = card (sharers (wptrs w) c) \<and>
     unat (shared_count k) \<le> card (sharers (sptrs w) c) \<and>
     (object_block w c \<longrightarrow> unat (shared_count k) = card (sharers (sptrs w) c))"

definition counts_ok :: "world \<Rightarrow> bool" where
  "counts_ok w \<longleftrightarrow> (\<forall>c k. counters w c = Some k \<longrightarrow> block_ok w c k)"

text \<open>Handles on one block hold one pointer; strong handles on one object share one block.\<close>

definition agree :: "world \<Rightarrow> bool" where
  "agree w \<longleftrightarrow>
     (\<forall>h h'. (h \<in> ran (sptrs w) \<or> h \<in> ran (wptrs w)) \<and> (h' \<in> ran (sptrs w) \<or> h' \<in> ran (wptrs w)) \<and>
        counter h \<noteq> None \<and> counter h = counter h' \<longrightarrow> ptr h = ptr h') \<and>
     (\<forall>h h'. h \<in> ran (sptrs w) \<and> h' \<in> ran (sptrs w) \<and>
        ptr h \<noteq> None \<and> ptr h = ptr h' \<longrightarrow> counter h = counter h')"

definition coherent :: "world \<Rightarrow> bool" where
  "coherent w \<longleftrightarrow>
     heap_ok w \<and> counts_ok w \<and> agree w \<and>
     (\<forall>h. h \<in> ran (sptrs w) \<longrightarrow> strong_ok w h) \<and>
     (\<forall>h. h \<in> ran (wptrs w) \<longrightarrow> weak_ok w h)"

section \<open>What one statement does\<close>

text \<open>
  \<open>last_release w w' a\<close>: between the stores \<open>w\<close> and \<open>w'\<close> the strong count of the
  control block through which a strong handle of \<open>w\<close> owns the object \<open>a\<close> goes from 1
  to 0.
\<close>

definition last_release :: "world \<Rightarrow> world \<Rightarrow> addr \<Rightarrow> bool" where
  "last_release w w' a \<longleftrightarrow>
     (\<exists>s c. sptrs w s = Some \<lparr>ptr = Some a, counter = Some c\<rparr> \<and>
        strong_count w c = 1 \<and> strong_count w' c = 0)"

text \<open>
  \<open>follows w x w'\<close>: \<open>w'\<close> is a coherent store whose log extends that of \<open>w\<close> by the
  deletes of the statement \<open>x\<close>; among them are exactly the objects whose last strong
  handle \<open>x\<close> released, and none when \<open>x\<close> acts on a \<open>WeakPtr\<close>.
\<close>

definition follows :: "world \<Rightarrow> op \<Rightarrow> world \<Rightarrow> bool" where
  "follows w x w' \<longleftrightarrow>
     coherent w' \<and>
     (\<exists>evs. events w' = events w @ evs \<and>
        (\<forall>a. Destroyed_object a \<in> set evs \<longleftrightarrow> last_release w w' a) \<and>
        (weak_op x \<longrightarrow> (\<forall>a. Destroyed_object a \<notin> set evs)))"

section \<open>Basic facts\<close>

lemmas prims = and_then_def new_Counter_def new_T_def delete_counter_def delete_ptr_def
  inc_shared_def inc_weak_def nullptr_def

lemma unat_inc: "x \<noteq> - 1 \<Longrightarrow> unat (x + 1 :: size_t) = Suc (unat x)"
proof -
  assume "x \<noteq> - 1"
  then have "1 + x \<noteq> 0" by (simp add: add_eq_0_iff)
  then show ?thesis using unatSuc[of x] by (simp add: add.commute)
qed

lemma unat_max: "unat (- 1 :: size_t) = 2 ^ 64 - 1"
  by (simp add: unsigned_minus_1_eq_mask mask_eq_exp_minus_1)

lemma word_le_one: "(x :: size_t) \<le> 1 \<longleftrightarrow> x = 0 \<or> x = 1"
  by (auto simp: order.order_iff_strict word_less_1)

lemma handle_null_counter: "counter h = None \<Longrightarrow> \<lparr>ptr = ptr h, counter = None\<rparr> = (h :: handle)"
  by (cases h) simp


lemma observed_run: "run [MakeShared 0, WeakPtr_from_shared 0 0] init = Returns () observed"
  by (simp add: MakeShared_def SharedPtr_raw_def WeakPtr_from_shared_def prims init_def observed_def)

lemma blank_run: "run [SharedPtr_default 0, SharedPtr_default 1] init = Returns () blank"
  by (simp add: SharedPtr_default_def prims init_def blank_def)

lemma zombie_run: "SharedPtr_dtor 0 observed = Returns () zombie"
  by (simp add: SharedPtr_dtor_def SharedPtr_DecreaseAndDelete_def prims zombie_def observed_def)

section \<open>Promotion of a weak handle\<close>

text \<open>
  C3. \<open>Lock()\<close> on a weak handle that is not expired returns a strong handle on the same
  control block (and the same pointer) whose \<open>UseCount()\<close> is the strong count before
  the call plus one; the sum is taken in \<open>size_t\<close>, and is one greater as a number
  unless the count was already \<open>SIZE_MAX\<close>. On an expired weak handle (null control
  block, or strong count zero) \<open>Lock()\<close> returns normally, and the handle it returns is
  falsy, counts zero owners and holds a null pointer.
\<close>

theorem Lock_promotes_or_returns_empty:
  assumes "wptrs w this = Some t"
  shows "(counter t = Some c \<and> counters w c = Some k \<and> shared_count k \<noteq> 0 \<longrightarrow>
            (\<exists>w'. WeakPtr_Lock this ret w = Returns () w'
               \<and> sptrs w' ret = Some \<lparr>ptr = ptr t, counter = Some c\<rparr>
               \<and> SharedPtr_UseCount ret w' = Returns (shared_count k + 1) w'
               \<and> (shared_count k \<noteq> - 1 \<longrightarrow> unat (shared_count k + 1) = unat (shared_count k) + 1)))
       \<and> ((counter t = None \<or> (counter t = Some c \<and> counters w c = Some k \<and> shared_count k = 0)) \<longrightarrow>
            (\<exists>w'. WeakPtr_Lock this ret w = Returns () w'
               \<and> SharedPtr_bool ret w' = Returns False w'
               \<and> SharedPtr_UseCount ret w' = Returns 0 w'
               \<and> SharedPtr_Get ret w' = Returns None w'))"
  using assms
  by (auto simp: WeakPtr_Lock_def SharedPtr_from_weak_def WeakPtr_Expired_def SharedPtr_raw_def
      SharedPtr_UseCount_def SharedPtr_bool_def SharedPtr_Get_def prims unat_inc)

theorem Lock_promotes_or_returns_empty_witness:
  "wptrs observed 0 = Some \<lparr>ptr = Some 0, counter = Some 1\<rparr>
   \<and> counters observed 1 = Some \<lparr>shared_count = 1, weak_count = 1\<rparr>
   \<and> (\<exists>w'. WeakPtr_Lock 0 1 observed = Returns () w'
         \<and> sptrs w' 1 = Some \<lparr>ptr = Some 0, counter = Some 1\<rparr>
         \<and> SharedPtr_UseCount 1 w' = Returns 2 w')
   \<and> wptrs zombie 0 = Some \<lparr>ptr = Some 0, counter = Some 1\<rparr>
   \<and> counters zombie 1 = Some \<lparr>shared_count = 0, weak_count = 1\<rparr>
   \<and> (\<exists>w'. WeakPtr_Lock 0 1 zombie = Returns () w'
         \<and> SharedPtr_bool 1 w' = Returns False w'
         \<and> SharedPtr_UseCount 1 w' = Returns 0 w')"
proof -
  have o: "wptrs observed 0 = Some \<lparr>ptr = Some 0, counter = Some 1\<rparr>"
    and ok: "counters observed 1 = Some \<lparr>shared_count = 1, weak_count = 1\<rparr>"
    by (simp_all add: observed_def)
  have z: "wptrs zombie 0 = Some \<lparr>ptr = Some 0, counter = Some 1\<rparr>"
    and zk: "counters zombie 1 = Some \<lparr>shared_count = 0, weak_count = 1\<rparr>"
    by (simp_all add: zombie_def)
  from Lock_promotes_or_returns_empty [OF o, of 1 "\<lparr>shared_count = 1, weak_count = 1\<rparr>" 1] ok
  have "\<exists>w'. WeakPtr_Lock 0 1 observed = Returns () w'
         \<and> sptrs w' 1 = Some \<lparr>ptr = Some 0, counter = Some 1\<rparr>
         \<and> SharedPtr_UseCount 1 w' = Returns 2 w'"
    by simp
  moreover
  from Lock_promotes_or_returns_empty [OF z, of 1 "\<lparr>shared_count = 0, weak_count = 1\<rparr>" 1] zk
  have "\<exists>w'. WeakPtr_Lock 0 1 zombie = Returns () w'
         \<and> SharedPtr_bool 1 w' = Returns False w'
         \<and> SharedPtr_UseCount 1 w' = Returns 0 w'"
    by auto
  ultimately show ?thesis using o ok z zk by simp
qed

text \<open>
  C4. Constructing a \<open>SharedPtr\<close> from an expired \<open>WeakPtr\<close> (null control block, or
  strong count zero) throws \<open>std::bad_weak_ptr\<close> out of the constructor, and the store in
  which the exception is thrown is the store of the call: both counts of the source's
  block, the source handle and everything else are as before.
\<close>

theorem promotion_of_expired_throws:
  assumes "wptrs w other = Some ot"
    and "counter ot = None \<or> (\<exists>c k. counter ot = Some c \<and> counters w c = Some k \<and> shared_count k = 0)"
  shows "SharedPtr_from_weak this other w = Throws bad_weak_ptr w"
  using assms by (auto simp: SharedPtr_from_weak_def WeakPtr_Expired_def and_then_def)

theorem promotion_of_expired_throws_witness:
  "wptrs zombie 0 = Some \<lparr>ptr = Some 0, counter = Some 1\<rparr>
   \<and> counters zombie 1 = Some \<lparr>shared_count = 0, weak_count = 1\<rparr>
   \<and> SharedPtr_from_weak 3 0 zombie = Throws bad_weak_ptr zombie"
proof -
  have z: "wptrs zombie 0 = Some \<lparr>ptr = Some 0, counter = Some 1\<rparr>"
    and zk: "counters zombie 1 = Some \<lparr>shared_count = 0, weak_count = 1\<rparr>"
    by (simp_all add: zombie_def)
  have e: "counter \<lparr>ptr = Some 0, counter = Some 1\<rparr> = None
      \<or> (\<exists>c k. counter \<lparr>ptr = Some 0, counter = Some 1\<rparr> = Some c
                 \<and> counters zombie c = Some k \<and> shared_count k = 0)"
    using zk by auto
  have "SharedPtr_from_weak 3 0 zombie = Throws bad_weak_ptr zombie"
    by (rule promotion_of_expired_throws [OF z e])
  then show ?thesis using z zk by simp
qed

section \<open>Null control blocks\<close>

text \<open>
  C10. The copy constructor of \<open>SharedPtr\<close> increments through \<open>counter\<close> unguarded: for a
  source whose control pointer is null (default-constructed or moved-from) the call is
  undefined, and for a source whose control block is allocated it returns. Copy
  assignment from such an empty source returns (once the target's own release has
  returned) and so does the conversion to a \<open>WeakPtr\<close>: both test \<open>counter\<close> before the
  increment.
\<close>

theorem copy_ctor_needs_control_block:
  assumes "sptrs w other = Some ot"
  shows "(counter ot = None \<longrightarrow> SharedPtr_copy this other w = Undefined)
    \<and> (counter ot = Some c \<and> counters w c \<noteq> None \<longrightarrow> (\<exists>w'. SharedPtr_copy this other w = Returns () w'))
    \<and> (counter ot = None \<and> this \<noteq> other \<and> sptrs w this = Some t
          \<and> SharedPtr_DecreaseAndDelete t w = Returns () w1 \<longrightarrow>
        SharedPtr_assign this other w = Returns () (w1\<lparr>sptrs := (sptrs w1)(this \<mapsto> ot)\<rparr>))
    \<and> (counter ot = None \<longrightarrow>
        WeakPtr_from_shared this other w = Returns () (w\<lparr>wptrs := (wptrs w)(this \<mapsto> ot)\<rparr>))"
  using assms
  by (auto simp: SharedPtr_copy_def SharedPtr_assign_def WeakPtr_from_shared_def prims
      handle_null_counter)

theorem copy_ctor_needs_control_block_witness:
  "sptrs blank 0 = Some nullptr \<and> counter nullptr = None
   \<and> SharedPtr_copy 2 0 blank = Undefined
   \<and> SharedPtr_assign 1 0 blank = Returns () (blank\<lparr>sptrs := (sptrs blank)(1 \<mapsto> nullptr)\<rparr>)
   \<and> WeakPtr_from_shared 2 0 blank = Returns () (blank\<lparr>wptrs := (wptrs blank)(2 \<mapsto> nullptr)\<rparr>)
   \<and> sptrs sole 0 = Some \<lparr>ptr = Some 0, counter = Some 1\<rparr>
   \<and> (\<exists>w'. SharedPtr_copy 2 0 sole = Returns () w')"
proof -
  have b0: "sptrs blank 0 = Some nullptr" and b1: "sptrs blank 1 = Some nullptr"
    by (simp_all add: blank_def)
  have n: "counter nullptr = None"
    by (simp add: nullptr_def)
  have r: "SharedPtr_DecreaseAndDelete nullptr blank = Returns () blank"
    by (simp add: SharedPtr_DecreaseAndDelete_def nullptr_def)
  have s0: "sptrs sole 0 = Some \<lparr>ptr = Some 0, counter = Some 1\<rparr>"
    and s1: "counters sole 1 \<noteq> None"
    by (simp_all add: sole_def)
  from copy_ctor_needs_control_block [of blank 0 nullptr 2 0 nullptr blank, OF b0] n
  have "SharedPtr_copy 2 0 blank = Undefined"
    and "WeakPtr_from_shared 2 0 blank = Returns () (blank\<lparr>wptrs := (wptrs blank)(2 \<mapsto> nullptr)\<rparr>)"
    by simp_all
  moreover
  from copy_ctor_needs_control_block [of blank 0 nullptr 1 0 nullptr blank, OF b0] n b1 r
  have "SharedPtr_assign 1 0 blank = Returns () (blank\<lparr>sptrs := (sptrs blank)(1 \<mapsto> nullptr)\<rparr>)"
    by simp
  moreover
  from copy_ctor_needs_control_block
      [of sole 0 "\<lparr>ptr = Some 0, counter = Some 1\<rparr>" 2 1 nullptr sole, OF s0] s1
  have "\<exists>w'. SharedPtr_copy 2 0 sole = Returns () w'"
    by simp
  ultimately show ?thesis using b0 n s0 by simp
qed

section \<open>Order of the two deletes\<close>

text \<open>
  C9, as the claim states it, fails: the sole strong handle of a group without weak
  handles is destroyed in the store \<open>sole\<close>; the release tears down both resources, and
  the control block is freed before the managed object is destroyed.
\<close>

theorem block_freed_before_object_counterexample:
  "\<exists>w'. SharedPtr_dtor 0 sole = Returns () w'
      \<and> events w' = events sole @ [Freed_counter 1, Destroyed_object 0]
      \<and> \<not> precedes (Destroyed_object 0) (Freed_counter 1) (events w')
      \<and> precedes (Freed_counter 1) (Destroyed_object 0) (events w')"
  by (simp add: SharedPtr_dtor_def SharedPtr_DecreaseAndDelete_def prims sole_def precedes_def)

text \<open>
  C9, amended. A release by a strong handle whose pointer refers to a live object
  returns, and logs exactly this: when the strong count is at most one before the call
  and the weak count is zero (both zero after the decrement), the control block is
  freed first and the managed object is destroyed second, in this one call; when the
  strong count is at most one and weak handles remain, the object alone is destroyed
  and the block stays; otherwise nothing is deleted.
\<close>

theorem release_frees_block_then_object:
  assumes "counter t = Some c" and "counters w c = Some k" and "ptr t = Some a" and "a \<in> objects w"
  shows "\<exists>w'. SharedPtr_DecreaseAndDelete t w = Returns () w' \<and>
           events w' = events w @
             (if shared_count k \<le> 1 \<and> weak_count k = 0 then [Freed_counter c, Destroyed_object a]
              else if shared_count k \<le> 1 then [Destroyed_object a]
              else [])"
  using assms
  by (auto simp: SharedPtr_DecreaseAndDelete_def prims Let_def word_greater_zero_iff word_le_one)

theorem release_frees_block_then_object_witness:
  "counters sole 1 = Some \<lparr>shared_count = 1, weak_count = 0\<rparr> \<and> 0 \<in> objects sole
   \<and> (\<exists>w'. SharedPtr_DecreaseAndDelete \<lparr>ptr = Some 0, counter = Some 1\<rparr> sole = Returns () w'
          \<and> events w' = [Freed_counter 1, Destroyed_object 0])
   \<and> counters observed 1 = Some \<lparr>shared_count = 1, weak_count = 1\<rparr> \<and> 0 \<in> objects observed
   \<and> (\<exists>w'. SharedPtr_DecreaseAndDelete \<lparr>ptr = Some 0, counter = Some 1\<rparr> observed = Returns () w'
          \<and> events w' = [Destroyed_object 0])"
proof -
  have s: "counters sole 1 = Some \<lparr>shared_count = 1, weak_count = 0\<rparr>" and so: "0 \<in> objects sole"
    and se: "events sole = []"
    by (simp_all add: sole_def)
  have b: "counters observed 1 = Some \<lparr>shared_count = 1, weak_count = 1\<rparr>" and bo: "0 \<in> objects observed"
    and be: "events observed = []"
    by (simp_all add: observed_def)
  from release_frees_block_then_object [of "\<lparr>ptr = Some 0, counter = Some 1\<rparr>" 1 sole _ 0, OF _ s _ so] se
  have "\<exists>w'. SharedPtr_DecreaseAndDelete \<lparr>ptr = Some 0, counter = Some 1\<rparr> sole = Returns () w'
          \<and> events w' = [Freed_counter 1, Destroyed_object 0]"
    by simp
  moreover
  from release_frees_block_then_object [of "\<lparr>ptr = Some 0, counter = Some 1\<rparr>" 1 observed _ 0, OF _ b _ bo] be
  have "\<exists>w'. SharedPtr_DecreaseAndDelete \<lparr>ptr = Some 0, counter = Some 1\<rparr> observed = Returns () w'
          \<and> events w' = [Destroyed_object 0]"
    by simp
  ultimately show ?thesis using s so b bo by simp
qed

section \<open>Where the source departs from the documented contract\<close>

text \<open>
  C2. \<open>auto s = MakeShared<T>(); WeakPtr<T> w(s);\<close>, then \<open>s\<close> is destroyed and
  \<open>w.Reset()\<close> is the last release of the group: both counts are zero, no handle
  refers to the control block any more, and the block is still allocated: \<open>Reset\<close>
  has no \<open>delete counter\<close>, unlike \<open>WeakPtr::DecreaseAndDelete\<close>.
\<close>

theorem Reset_as_last_release_leaks_block:
  "\<exists>w'. run [MakeShared 0, WeakPtr_from_shared 0 0, SharedPtr_dtor 0, WeakPtr_Reset 0] init = Returns () w'
      \<and> counters w' 1 = Some \<lparr>shared_count = 0, weak_count = 0\<rparr>
      \<and> sptrs w' = (\<lambda>_. None) \<and> wptrs w' = (\<lambda>_. None)(0 \<mapsto> nullptr)
      \<and> events w' = [Destroyed_object 0]"
  by (simp add: MakeShared_def SharedPtr_raw_def WeakPtr_from_shared_def SharedPtr_dtor_def
      SharedPtr_DecreaseAndDelete_def WeakPtr_Reset_def prims init_def)

text \<open>
  C6. In the store \<open>observed\<close> (one strong, one weak handle, weak count 1) the converting
  move constructor \<open>WeakPtr(WeakPtr<U>&&)\<close> builds a second weak handle from the first:
  the weak count becomes 3 and the source keeps its pointer and its control block.
  (The fields of the new object are taken to be null before \<open>*this = other\<close> runs.)
\<close>

theorem converting_move_changes_weak_count:
  "counters observed 1 = Some \<lparr>shared_count = 1, weak_count = 1\<rparr>
   \<and> (\<exists>w'. WeakPtr_conv_move nullptr 1 0 observed = Returns () w'
          \<and> counters w' 1 = Some \<lparr>shared_count = 1, weak_count = 3\<rparr>
          \<and> wptrs w' 0 = Some \<lparr>ptr = Some 0, counter = Some 1\<rparr>
          \<and> wptrs w' 1 = Some \<lparr>ptr = Some 0, counter = Some 1\<rparr>)"
  by (simp add: WeakPtr_conv_move_def WeakPtr_assign_def WeakPtr_DecreaseAndDelete_def prims
      observed_def)

text \<open>
  C8. \<open>WeakPtr(T* ptr)\<close> returns with a new control block whose strong count is zero and
  whose weak count is whatever value \<open>junk\<close> the allocation left in the field: the
  constructor never assigns \<open>weak_count_\<close>, for a null pointer or any other.
\<close>

theorem WeakPtr_raw_leaves_weak_count_unassigned:
  "\<exists>w'. WeakPtr_raw junk this p w = Returns () w'
      \<and> wptrs w' this = Some \<lparr>ptr = p, counter = Some (brk w)\<rparr>
      \<and> counters w' (brk w) = Some \<lparr>shared_count = 0, weak_count = junk\<rparr>"
  by (simp add: WeakPtr_raw_def prims)

section \<open>Counting the handles on a block\<close>

lemma sharers_upd:
  "sharers (m(s := x)) c =
     (if (\<exists>h. x = Some h \<and> counter h = Some c) then insert s (sharers m c) else sharers m c - {s})"
  by (auto simp: sharers_def)

lemma mem_sharers: "s \<in> sharers m c \<longleftrightarrow> (\<exists>h. m s = Some h \<and> counter h = Some c)"
  by (simp add: sharers_def)

lemma card_slots: "card (A :: slot set) \<le> 2 ^ 60"
  using card_mono [of "UNIV :: slot set" A] by (simp add: card_word)

lemma card_sharers_put:
  "m s = None \<Longrightarrow> card (sharers (m(s \<mapsto> h)) c) = card (sharers m c) + (if counter h = Some c then 1 else 0)"
  by (simp add: sharers_upd mem_sharers)

lemma card_sharers_drop:
  assumes "m s = Some h"
  shows "card (sharers m c) = card (sharers (m(s := None)) c) + (if counter h = Some c then 1 else 0)"
proof (cases "counter h = Some c")
  case True
  with assms have "s \<in> sharers m c" by (auto simp: mem_sharers)
  then have "card (sharers m c) = Suc (card (sharers m c - {s}))"
    by (intro card.remove) simp_all
  with True show ?thesis by (simp add: sharers_upd)
next
  case False
  with assms have "s \<notin> sharers m c" by (auto simp: mem_sharers)
  with False show ?thesis by (simp add: sharers_upd)
qed

lemma ran_put: "m s = None \<Longrightarrow> ran (m(s \<mapsto> h)) = insert h (ran m)"
  by auto

lemma ran_drop: "ran (m(s := None)) \<subseteq> ran m"
  by (auto simp: ran_def)

lemma sharers_put_null: "sharers (m(s \<mapsto> nullptr)) c = sharers (m(s := None)) c"
  by (simp add: sharers_upd nullptr_def)

lemma ran_put_sub: "ran (m(s \<mapsto> h)) \<subseteq> insert h (ran m)"
  by (auto simp: ran_def)

lemma ran_null_out: "ran (m(s \<mapsto> nullptr)) \<subseteq> insert nullptr (ran m)"
  using ran_put_sub [of "m(s := None)" s nullptr] ran_drop [of m s] by auto

lemma sharers_drop_unshared:
  "m s = Some h \<Longrightarrow> counter h = None \<Longrightarrow> sharers (m(s := None)) c = sharers m c"
  by (auto simp: sharers_def)

lemma sharers_drop_other:
  "m s = Some h \<Longrightarrow> counter h = Some b \<Longrightarrow> c \<noteq> b \<Longrightarrow> sharers (m(s := None)) c = sharers m c"
  by (auto simp: sharers_def)

lemma unshared_ran:
  "sharers m b = {} \<Longrightarrow> x \<in> ran m \<Longrightarrow> counter x \<noteq> Some b"
  by (auto simp: sharers_def ran_def)

lemma card_0_sharers: "card (sharers m b) = 0 \<longleftrightarrow> sharers m b = {}"
  by (simp add: card_eq_0_iff)

lemma in_ran: "h \<in> ran m \<longleftrightarrow> (\<exists>s. m s = Some h)"
  by (auto simp: ran_def)

lemma card_sharers_move:
  assumes f: "m s = None" and o: "m other = Some h"
  shows "card (sharers (m(s \<mapsto> h, other \<mapsto> nullptr)) c) = card (sharers m c)"
proof -
  from f o have ne: "s \<noteq> other" by auto
  have n: "(m(s \<mapsto> h)) other = Some h" using ne o by simp
  have "card (sharers (m(s \<mapsto> h, other \<mapsto> nullptr)) c) = card (sharers ((m(s \<mapsto> h))(other := None)) c)"
    by (simp add: sharers_put_null)
  also have "\<dots> + (if counter h = Some c then 1 else 0) = card (sharers (m(s \<mapsto> h)) c)"
    using card_sharers_drop [of "m(s \<mapsto> h)" other h c] n by simp
  also have "\<dots> = card (sharers m c) + (if counter h = Some c then 1 else 0)"
    using f by (rule card_sharers_put)
  finally show ?thesis by simp
qed

lemma ran_move:
  assumes o: "m other = Some h"
  shows "ran (m(s \<mapsto> h, other \<mapsto> nullptr)) \<subseteq> insert nullptr (ran m)"
  using o by (auto simp: ran_def)

lemma card_sharers_swap:
  assumes a: "m s = Some x" and b: "m other = Some y"
  shows "card (sharers (m(s \<mapsto> y, other \<mapsto> x)) c) = card (sharers m c)"
proof (cases "s = other")
  case True
  with a b have "m(s \<mapsto> y, other \<mapsto> x) = m" by (auto simp: fun_eq_iff)
  then show ?thesis by simp
next
  case False
  let ?f = "\<lambda>z. if z = s then other else if z = other then s else z"
  have e: "sharers (m(s \<mapsto> y, other \<mapsto> x)) c = ?f ` sharers m c"
    using a b False by (auto simp: sharers_def image_iff)
  have i: "inj_on ?f (sharers m c)"
    by (auto simp: inj_on_def)
  show ?thesis by (simp only: e card_image [OF i])
qed

lemma ran_swap:
  assumes a: "m s = Some x" and b: "m other = Some y"
  shows "ran (m(s \<mapsto> y, other \<mapsto> x)) \<subseteq> ran m"
  using a b by (auto simp: ran_def)

lemma two_sharers:
  assumes "m s = Some t" and "m other = Some ot" and "s \<noteq> other"
    and "counter t = Some b" and "counter ot = Some b"
  shows "2 \<le> card (sharers m b)"
proof -
  have "{s, other} \<subseteq> sharers m b" using assms by (auto simp: mem_sharers)
  then have "card {s, other} \<le> card (sharers m b)" by (intro card_mono) simp_all
  with assms(3) show ?thesis by simp
qed


section \<open>Reading the invariant\<close>

lemma coherentD:
  assumes "coherent w"
  shows "heap_ok w" and "counts_ok w" and "agree w"
    and "\<And>s h. sptrs w s = Some h \<Longrightarrow> strong_ok w h"
    and "\<And>s h. wptrs w s = Some h \<Longrightarrow> weak_ok w h"
  using assms by (auto simp: coherent_def ran_def)

lemma strong_ok_iff:
  "strong_ok w h \<longleftrightarrow>
     (counter h = None \<longrightarrow> ptr h = None) \<and>
     (\<forall>c. counter h = Some c \<longrightarrow>
        c < brk w \<and> (\<forall>a. ptr h = Some a \<longrightarrow> a \<in> objects w \<and> counters w c \<noteq> None))"
  by (auto simp: strong_ok_def split: option.splits)

lemma weak_ok_iff:
  "weak_ok w h \<longleftrightarrow>
     (counter h = None \<longrightarrow> ptr h = None) \<and>
     (\<forall>c. counter h = Some c \<longrightarrow>
        counters w c \<noteq> None \<and> (\<forall>a. ptr h = Some a \<longrightarrow> a < brk w))"
  by (auto simp: weak_ok_def split: option.splits)

lemma strong_ok_nullptr [simp]: "strong_ok w nullptr"
  by (simp add: strong_ok_iff nullptr_def)

lemma weak_ok_nullptr [simp]: "weak_ok w nullptr"
  by (simp add: weak_ok_iff nullptr_def)

lemma strong_ok_frame [simp]:
  "strong_ok (w\<lparr>sptrs := ms\<rparr>) h = strong_ok w h"
  "strong_ok (w\<lparr>wptrs := mw\<rparr>) h = strong_ok w h"
  "strong_ok (w\<lparr>events := es\<rparr>) h = strong_ok w h"
  by (simp_all add: strong_ok_iff)

lemma weak_ok_frame [simp]:
  "weak_ok (w\<lparr>sptrs := ms\<rparr>) h = weak_ok w h"
  "weak_ok (w\<lparr>wptrs := mw\<rparr>) h = weak_ok w h"
  "weak_ok (w\<lparr>objects := os\<rparr>) h = weak_ok w h"
  "weak_ok (w\<lparr>events := es\<rparr>) h = weak_ok w h"
  by (simp_all add: weak_ok_iff)

lemma object_block_frame [simp]:
  "object_block (w\<lparr>counters := cs\<rparr>) = object_block w"
  "object_block (w\<lparr>objects := os\<rparr>) = object_block w"
  "object_block (w\<lparr>brk := b\<rparr>) = object_block w"
  "object_block (w\<lparr>events := es\<rparr>) = object_block w"
  by (simp_all add: object_block_def fun_eq_iff)

lemma block_ok_frame [simp]:
  "block_ok (w\<lparr>counters := cs\<rparr>) = block_ok w"
  "block_ok (w\<lparr>objects := os\<rparr>) = block_ok w"
  "block_ok (w\<lparr>brk := b\<rparr>) = block_ok w"
  "block_ok (w\<lparr>events := es\<rparr>) = block_ok w"
  by (simp_all add: block_ok_def fun_eq_iff)

lemma heap_ok_frame [simp]:
  "heap_ok (w\<lparr>sptrs := ms\<rparr>) = heap_ok w"
  "heap_ok (w\<lparr>wptrs := mw\<rparr>) = heap_ok w"
  by (simp_all add: heap_ok_def)

lemma counts_ok_frame [simp]:
  "counts_ok (w\<lparr>objects := os\<rparr>) = counts_ok w"
  "counts_ok (w\<lparr>brk := b\<rparr>) = counts_ok w"
  "counts_ok (w\<lparr>events := es\<rparr>) = counts_ok w"
  by (simp_all add: counts_ok_def)

lemma agree_frame [simp]:
  "agree (w\<lparr>counters := cs\<rparr>) = agree w"
  "agree (w\<lparr>objects := os\<rparr>) = agree w"
  "agree (w\<lparr>brk := b\<rparr>) = agree w"
  "agree (w\<lparr>events := es\<rparr>) = agree w"
  by (simp_all add: agree_def)

lemma agree_ptr:
  assumes "agree w" and "h \<in> ran (sptrs w) \<or> h \<in> ran (wptrs w)"
    and "h' \<in> ran (sptrs w) \<or> h' \<in> ran (wptrs w)"
    and "counter h = Some c" and "counter h' = Some c"
  shows "ptr h = ptr h'"
  using assms unfolding agree_def by (metis option.distinct(1))

lemma agree_counter:
  assumes "agree w" and "h \<in> ran (sptrs w)" and "h' \<in> ran (sptrs w)"
    and "ptr h = Some a" and "ptr h' = Some a"
  shows "counter h = counter h'"
  using assms unfolding agree_def by (metis option.distinct(1))

lemma coherent_strong:
  "coherent w \<Longrightarrow> h \<in> ran (sptrs w) \<Longrightarrow> strong_ok w h"
  by (simp add: coherent_def)

lemma coherent_weak:
  "coherent w \<Longrightarrow> h \<in> ran (wptrs w) \<Longrightarrow> weak_ok w h"
  by (simp add: coherent_def)

lemma fresh_counter: "coherent w \<Longrightarrow> counters w (brk w) = None"
  unfolding coherent_def heap_ok_def by (metis less_irrefl)

lemma below_brk: "coherent w \<Longrightarrow> counters w c = Some k \<Longrightarrow> c < brk w"
  unfolding coherent_def heap_ok_def by (metis option.distinct(1))

lemma object_below: "coherent w \<Longrightarrow> a \<in> objects w \<Longrightarrow> a < brk w"
  unfolding coherent_def heap_ok_def by blast

lemma fresh_unshared:
  assumes "coherent w"
  shows "sharers (sptrs w) (brk w) = {}" and "sharers (wptrs w) (brk w) = {}"
proof -
  have n: "counters w (brk w) = None" by (rule fresh_counter [OF assms])
  show "sharers (sptrs w) (brk w) = {}"
  proof (rule ccontr)
    assume "sharers (sptrs w) (brk w) \<noteq> {}"
    then obtain s h where sh: "sptrs w s = Some h" "counter h = Some (brk w)"
      by (auto simp: sharers_def)
    from coherentD(4) [OF assms sh(1)] sh(2) show False by (simp add: strong_ok_iff)
  qed
  show "sharers (wptrs w) (brk w) = {}"
  proof (rule ccontr)
    assume "sharers (wptrs w) (brk w) \<noteq> {}"
    then obtain s h where sh: "wptrs w s = Some h" "counter h = Some (brk w)"
      by (auto simp: sharers_def)
    from coherentD(5) [OF assms sh(1)] sh(2) n show False by (simp add: weak_ok_iff)
  qed
qed

lemma countsD:
  assumes "coherent w" and "counters w c = Some k"
  shows "unat (weak_count k) = card (sharers (wptrs w) c)"
    and "unat (shared_count k) \<le> card (sharers (sptrs w) c)"
    and "object_block w c \<Longrightarrow> unat (shared_count k) = card (sharers (sptrs w) c)"
proof -
  from coherentD(2) [OF assms(1)] assms(2) have "block_ok w c k"
    unfolding counts_ok_def by blast
  then show "unat (weak_count k) = card (sharers (wptrs w) c)"
    and "unat (shared_count k) \<le> card (sharers (sptrs w) c)"
    and "object_block w c \<Longrightarrow> unat (shared_count k) = card (sharers (sptrs w) c)"
    by (simp_all add: block_ok_def)
qed

lemma counts_okI: "(\<And>c k. counters w c = Some k \<Longrightarrow> block_ok w c k) \<Longrightarrow> counts_ok w"
  by (simp add: counts_ok_def)

lemma block_okD: "coherent w \<Longrightarrow> counters w c = Some k \<Longrightarrow> block_ok w c k"
  unfolding coherent_def counts_ok_def by blast

lemma block_ok_same:
  assumes "block_ok w c k"
    and "card (sharers (sptrs w') c) = card (sharers (sptrs w) c)"
    and "card (sharers (wptrs w') c) = card (sharers (wptrs w) c)"
    and "object_block w' c \<Longrightarrow> object_block w c"
  shows "block_ok w' c k"
  using assms unfolding block_ok_def by auto

lemma small_count:
  assumes "unat (x :: size_t) \<le> card (A :: slot set)"
  shows "x \<noteq> - 1" and "unat (x + 1) = Suc (unat x)" and "x + 1 \<noteq> 0"
proof -
  have "unat x \<le> 2 ^ 60" using assms card_slots [of A] by simp
  then show a: "x \<noteq> - 1" by (auto simp: unat_max)
  from unat_inc [OF a] show b: "unat (x + 1) = Suc (unat x)" by simp
  from b show "x + 1 \<noteq> 0" by (metis Zero_not_Suc unat_0)
qed

lemma object_blockI:
  "h \<in> ran (sptrs w) \<or> h \<in> ran (wptrs w) \<Longrightarrow> counter h = Some c \<Longrightarrow> ptr h = Some a \<Longrightarrow> object_block w c"
  unfolding object_block_def by (metis option.distinct(1))

lemma null_block:
  assumes "agree w" and "t \<in> ran (sptrs w) \<or> t \<in> ran (wptrs w)"
    and "counter t = Some b" and "ptr t = None"
  shows "\<not> object_block w b"
proof
  assume "object_block w b"
  then obtain h where h: "h \<in> ran (sptrs w) \<or> h \<in> ran (wptrs w)" "counter h = Some b" "ptr h \<noteq> None"
    unfolding object_block_def by blast
  from agree_ptr [OF assms(1) h(1) assms(2) h(2) assms(3)] h(3) assms(4) show False by simp
qed

lemma object_block_mono:
  assumes "ran (sptrs w') \<subseteq> insert nullptr (ran (sptrs w))"
    and "ran (wptrs w') \<subseteq> insert nullptr (ran (wptrs w))"
    and "object_block w' c"
  shows "object_block w c"
proof -
  from assms(3) obtain h where h: "h \<in> ran (sptrs w') \<or> h \<in> ran (wptrs w')" "counter h = Some c" "ptr h \<noteq> None"
    unfolding object_block_def by blast
  from h(2) have "h \<noteq> nullptr" by (auto simp: nullptr_def)
  with h(1) assms(1,2) have "h \<in> ran (sptrs w) \<or> h \<in> ran (wptrs w)" by blast
  with h(2,3) show ?thesis unfolding object_block_def by blast
qed

lemma object_owner:
  assumes c: "coherent w" and h: "h \<in> ran (sptrs w)" and hc: "counter h = Some b" and pa: "ptr h = Some a"
  obtains k where "counters w b = Some k" and "a \<in> objects w"
    and "unat (shared_count k) = card (sharers (sptrs w) b)" and "shared_count k \<noteq> 0"
proof -
  from coherent_strong [OF c h] hc pa obtain k where k: "counters w b = Some k" and a: "a \<in> objects w"
    by (auto simp: strong_ok_iff)
  have ob: "object_block w b" using h hc pa by (intro object_blockI [of h]) simp_all
  note e = countsD(3) [OF c k ob]
  from h hc obtain s where "s \<in> sharers (sptrs w) b" by (auto simp: in_ran mem_sharers)
  then have "card (sharers (sptrs w) b) \<noteq> 0" by (auto simp: card_eq_0_iff)
  with e have "shared_count k \<noteq> 0" by (metis unat_0)
  with k a e show ?thesis by (rule that)
qed

lemma weak_object:
  assumes c: "coherent w" and h: "h \<in> ran (wptrs w)" and hc: "counter h = Some b" and pa: "ptr h = Some a"
    and k: "counters w b = Some k" and nz: "shared_count k \<noteq> 0"
  obtains h0 where "h0 \<in> ran (sptrs w)" and "counter h0 = Some b" and "ptr h0 = Some a" and "a \<in> objects w"
proof -
  have ob: "object_block w b" using h hc pa by (intro object_blockI [of h]) simp_all
  from countsD(3) [OF c k ob] nz have "card (sharers (sptrs w) b) \<noteq> 0" by (metis unat_0_iff)
  then obtain s0 h0 where h0: "sptrs w s0 = Some h0" "counter h0 = Some b"
    by (auto simp: sharers_def card_eq_0_iff)
  then have h0r: "h0 \<in> ran (sptrs w)" by (auto simp: in_ran)
  from agree_ptr [OF coherentD(3) [OF c], of h0 h b] h0r h h0(2) hc pa have p0: "ptr h0 = Some a" by simp
  from coherent_strong [OF c h0r] h0(2) p0 have "a \<in> objects w" by (auto simp: strong_ok_iff)
  with h0r h0(2) p0 show ?thesis by (rule that)
qed

lemma strong_null: "coherent w \<Longrightarrow> sptrs w s = Some h \<Longrightarrow> counter h = None \<Longrightarrow> h = nullptr"
  using coherentD(4) [of w s h] by (cases h) (simp add: strong_ok_iff nullptr_def)

lemma weak_null: "coherent w \<Longrightarrow> wptrs w s = Some h \<Longrightarrow> counter h = None \<Longrightarrow> h = nullptr"
  using coherentD(5) [of w s h] by (cases h) (simp add: weak_ok_iff nullptr_def)

lemma weak_live:
  "coherent w \<Longrightarrow> wptrs w s = Some h \<Longrightarrow> counter h = Some b \<Longrightarrow> \<exists>k. counters w b = Some k"
  using coherentD(5) [of w s h] by (auto simp: weak_ok_iff)

lemma coherent_cong:
  assumes "coherent v" and "sptrs v = sptrs v'" and "wptrs v = wptrs v'"
    and "counters v = counters v'" and "objects v = objects v'" and "brk v = brk v'"
    and "events v = events v'"
  shows "coherent (v' :: world)"
proof -
  have "v = v'" using assms(2-) by (intro world.equality) simp_all
  with assms(1) show ?thesis by simp
qed

lemma coherentI:
  assumes "heap_ok w" and "\<And>c k. counters w c = Some k \<Longrightarrow> block_ok w c k" and "agree w"
    and "\<And>h. h \<in> ran (sptrs w) \<Longrightarrow> strong_ok w h"
    and "\<And>h. h \<in> ran (wptrs w) \<Longrightarrow> weak_ok w h"
  shows "coherent w"
  using assms by (simp add: coherent_def counts_ok_def)

section \<open>Transitions that keep the invariant\<close>

lemma agree_mono:
  assumes a: "agree w"
    and rs: "ran (sptrs w') \<subseteq> insert nullptr (ran (sptrs w))"
    and rw: "ran (wptrs w') \<subseteq> insert nullptr (ran (wptrs w))"
  shows "agree w'"
  unfolding agree_def
proof (intro conjI allI impI)
  fix h h'
  assume x: "(h \<in> ran (sptrs w') \<or> h \<in> ran (wptrs w')) \<and> (h' \<in> ran (sptrs w') \<or> h' \<in> ran (wptrs w')) \<and>
      counter h \<noteq> None \<and> counter h = counter h'"
  then have "h \<noteq> nullptr" "h' \<noteq> nullptr" by (auto simp: nullptr_def)
  with x rs rw have "(h \<in> ran (sptrs w) \<or> h \<in> ran (wptrs w)) \<and> (h' \<in> ran (sptrs w) \<or> h' \<in> ran (wptrs w))"
    by blast
  with x a show "ptr h = ptr h'" unfolding agree_def by blast
next
  fix h h'
  assume x: "h \<in> ran (sptrs w') \<and> h' \<in> ran (sptrs w') \<and> ptr h \<noteq> None \<and> ptr h = ptr h'"
  then have "h \<noteq> nullptr" "h' \<noteq> nullptr" by (auto simp: nullptr_def)
  with x rs have "h \<in> ran (sptrs w) \<and> h' \<in> ran (sptrs w)" by blast
  with x a show "counter h = counter h'" unfolding agree_def by blast
qed

lemma heap_ok_update:
  assumes "heap_ok w" and "counters w b = Some k"
    and "counters w' = (counters w)(b \<mapsto> k')" and "objects w' = objects w"
    and "brk w' = brk w" and "events w' = events w"
  shows "heap_ok w'"
  using assms unfolding heap_ok_def by simp (metis option.distinct(1))

lemma coherent_tables:
  assumes c: "coherent w"
    and rs: "ran ms \<subseteq> insert nullptr (ran (sptrs w))"
    and rw: "ran mw \<subseteq> insert nullptr (ran (wptrs w))"
    and cs: "\<And>c. card (sharers ms c) = card (sharers (sptrs w) c)"
    and cw: "\<And>c. card (sharers mw c) = card (sharers (wptrs w) c)"
  shows "coherent (w\<lparr>sptrs := ms, wptrs := mw\<rparr>)"
    (is "coherent ?w")
proof (rule coherentI)
  show "heap_ok ?w" using coherentD(1) [OF c] by simp
  show "block_ok ?w c' k" if "counters ?w c' = Some k" for c' k
  proof -
    from that have k: "counters w c' = Some k" by simp
    have m: "object_block ?w c' \<Longrightarrow> object_block w c'"
      using object_block_mono [of ?w w c'] rs rw by simp
    from block_okD [OF c k] show ?thesis
      by (rule block_ok_same) (simp_all add: cs cw m)
  qed
  show "agree ?w"
    by (rule agree_mono [OF coherentD(3) [OF c]]) (simp_all add: rs rw)
  show "strong_ok ?w h" if "h \<in> ran (sptrs ?w)" for h
  proof -
    from that rs have "h = nullptr \<or> h \<in> ran (sptrs w)" by auto
    then show ?thesis using c by (auto simp: coherent_def)
  qed
  show "weak_ok ?w h" if "h \<in> ran (wptrs ?w)" for h
  proof -
    from that rw have "h = nullptr \<or> h \<in> ran (wptrs w)" by auto
    then show ?thesis using c by (auto simp: coherent_def)
  qed
qed

lemma coherent_new_T:
  assumes c: "coherent w"
  shows "coherent (w\<lparr>objects := insert (brk w) (objects w), brk := Suc (brk w)\<rparr>)"
    (is "coherent ?w")
proof (rule coherentI)
  show "heap_ok ?w"
    using coherentD(1) [OF c] unfolding heap_ok_def by (simp add: less_Suc_eq) (metis less_irrefl)
  show "block_ok ?w c' k" if "counters ?w c' = Some k" for c' k
    using block_okD [OF c, of c' k] that by simp
  show "agree ?w"
    using coherentD(3) [OF c] by simp
  show "strong_ok ?w h" if "h \<in> ran (sptrs ?w)" for h
    using coherent_strong [OF c, of h] that by (auto simp: strong_ok_iff less_Suc_eq)
  show "weak_ok ?w h" if "h \<in> ran (wptrs ?w)" for h
    using coherent_weak [OF c, of h] that by (auto simp: weak_ok_iff less_Suc_eq)
qed

lemma coherent_raw:
  assumes c: "coherent w" and f: "sptrs w s = None"
    and p: "p = None \<or> (\<exists>a. p = Some a \<and> a \<in> objects w \<and> (\<forall>h \<in> ran (sptrs w). ptr h \<noteq> Some a))"
  shows "coherent (w\<lparr>counters := (counters w)(brk w \<mapsto> \<lparr>shared_count = (if p \<noteq> None then 1 else 0), weak_count = 0\<rparr>),
                    brk := Suc (brk w),
                    sptrs := (sptrs w)(s \<mapsto> \<lparr>ptr = p, counter = Some (brk w)\<rparr>)\<rparr>)"
    (is "coherent ?w")
proof (rule coherentI)
  let ?h = "\<lparr>ptr = p, counter = Some (brk w)\<rparr>"
  note n = fresh_counter [OF c] and u = fresh_unshared [OF c]
  have ran_s: "ran (sptrs ?w) = insert ?h (ran (sptrs w))"
    using f by (simp add: ran_put)
  have ran_w: "ran (wptrs ?w) = ran (wptrs w)"
    by simp
  have old_s: "counter h \<noteq> Some (brk w)" if "h \<in> ran (sptrs w)" for h
    using that u(1) by (auto simp: in_ran sharers_def)
  have old_w: "counter h \<noteq> Some (brk w)" if "h \<in> ran (wptrs w)" for h
    using that u(2) by (auto simp: in_ran sharers_def)
  show "heap_ok ?w"
    using coherentD(1) [OF c] unfolding heap_ok_def
    by (simp add: less_Suc_eq) (metis less_irrefl)
  show "block_ok ?w c' k" if k: "counters ?w c' = Some k" for c' k
  proof (cases "c' = brk w")
    case True
    have "object_block ?w (brk w) \<Longrightarrow> p \<noteq> None"
    proof -
      assume "object_block ?w (brk w)"
      then obtain h where h: "h \<in> ran (sptrs ?w) \<or> h \<in> ran (wptrs ?w)"
        "counter h = Some (brk w)" "ptr h \<noteq> None"
        unfolding object_block_def by blast
      with old_s old_w have "h = ?h" unfolding ran_s ran_w by blast
      with h(3) show "p \<noteq> None" by simp
    qed
    with True k u f show ?thesis
      unfolding block_ok_def by (auto simp: card_sharers_put split: if_splits)
  next
    case False
    with k have k': "counters w c' = Some k" by simp
    have m: "object_block ?w c' \<Longrightarrow> object_block w c'"
    proof -
      assume "object_block ?w c'"
      then obtain h where h: "h \<in> ran (sptrs ?w) \<or> h \<in> ran (wptrs ?w)"
        "counter h = Some c'" "ptr h \<noteq> None"
        unfolding object_block_def by blast
      with False have "h \<noteq> ?h" by auto
      with h(1) have "h \<in> ran (sptrs w) \<or> h \<in> ran (wptrs w)" unfolding ran_s ran_w by blast
      with h(2,3) show "object_block w c'" unfolding object_block_def by blast
    qed
    from block_okD [OF c k'] show ?thesis
      using False f by (intro block_ok_same [of w c' k ?w]) (simp_all add: card_sharers_put m)
  qed
  show "agree ?w"
    unfolding agree_def
  proof (intro conjI allI impI)
    fix h h'
    assume a: "(h \<in> ran (sptrs ?w) \<or> h \<in> ran (wptrs ?w)) \<and> (h' \<in> ran (sptrs ?w) \<or> h' \<in> ran (wptrs ?w)) \<and>
        counter h \<noteq> None \<and> counter h = counter h'"
    show "ptr h = ptr h'"
    proof (cases "counter h = Some (brk w)")
      case True
      with a old_s old_w have "h = ?h" "h' = ?h" unfolding ran_s by auto
      then show ?thesis by simp
    next
      case False
      with a have "(h \<in> ran (sptrs w) \<or> h \<in> ran (wptrs w)) \<and> (h' \<in> ran (sptrs w) \<or> h' \<in> ran (wptrs w))"
        unfolding ran_s by auto
      with a coherentD(3) [OF c] show ?thesis unfolding agree_def by blast
    qed
  next
    fix h h'
    assume a: "h \<in> ran (sptrs ?w) \<and> h' \<in> ran (sptrs ?w) \<and> ptr h \<noteq> None \<and> ptr h = ptr h'"
    show "counter h = counter h'"
    proof (cases "h = ?h \<or> h' = ?h")
      case True
      with a p show ?thesis unfolding ran_s by auto
    next
      case False
      with a have "h \<in> ran (sptrs w) \<and> h' \<in> ran (sptrs w)" unfolding ran_s by auto
      with a coherentD(3) [OF c] show ?thesis unfolding agree_def by blast
    qed
  qed
  show "strong_ok ?w h" if "h \<in> ran (sptrs ?w)" for h
  proof (cases "h = ?h")
    case True
    with p show ?thesis by (auto simp: strong_ok_iff)
  next
    case False
    with that have o: "h \<in> ran (sptrs w)" unfolding ran_s by simp
    from coherent_strong [OF c o] old_s [OF o] show ?thesis by (auto simp: strong_ok_iff less_Suc_eq)
  qed
  show "weak_ok ?w h" if "h \<in> ran (wptrs ?w)" for h
  proof -
    from that have o: "h \<in> ran (wptrs w)" by simp
    from coherent_weak [OF c o] old_w [OF o] show ?thesis by (auto simp: weak_ok_iff less_Suc_eq)
  qed
qed

lemma coherent_acquire_strong:
  assumes c: "coherent w" and f: "sptrs w s = None"
    and h: "h \<in> ran (sptrs w) \<or> (h \<in> ran (wptrs w) \<and> shared_count k \<noteq> 0)"
    and hc: "counter h = Some b" and k: "counters w b = Some k"
  shows "coherent (w\<lparr>sptrs := (sptrs w)(s \<mapsto> h),
                    counters := (counters w)(b \<mapsto> k\<lparr>shared_count := shared_count k + 1\<rparr>)\<rparr>)"
    (is "coherent ?w")
proof (rule coherentI)
  from h have hr: "h \<in> ran (sptrs w) \<or> h \<in> ran (wptrs w)" by blast
  have ran_s: "ran (sptrs ?w) = insert h (ran (sptrs w))"
    using f by (simp add: ran_put)
  have ran_w: "ran (wptrs ?w) = ran (wptrs w)"
    by simp
  note le = countsD(2) [OF c k]
  note sc = small_count [OF le]
  have ob: "object_block ?w c' \<longleftrightarrow> object_block w c'" for c'
    unfolding object_block_def ran_s ran_w using hr by blast
  have owner: "\<exists>h0. h0 \<in> ran (sptrs w) \<and> counter h0 = Some b \<and> ptr h0 = Some a \<and> a \<in> objects w"
    if pa: "ptr h = Some a" for a
    using h
  proof
    assume hs: "h \<in> ran (sptrs w)"
    from coherent_strong [OF c hs] hc pa have "a \<in> objects w" by (auto simp: strong_ok_iff)
    with hs hc pa show ?thesis by blast
  next
    assume "h \<in> ran (wptrs w) \<and> shared_count k \<noteq> 0"
    then have hw: "h \<in> ran (wptrs w)" and nz: "shared_count k \<noteq> 0" by simp_all
    show ?thesis by (rule weak_object [OF c hw hc pa k nz]) blast
  qed
  show "heap_ok ?w"
    by (rule heap_ok_update [OF coherentD(1) [OF c] k]) simp_all
  show "block_ok ?w c' k'" if k': "counters ?w c' = Some k'" for c' k'
  proof (cases "c' = b")
    case True
    with k' have e: "k' = k\<lparr>shared_count := shared_count k + 1\<rparr>" by simp
    have "unat (weak_count k') = card (sharers (wptrs ?w) b)"
      using countsD(1) [OF c k] e by simp
    moreover have "card (sharers (sptrs ?w) b) = Suc (card (sharers (sptrs w) b))"
      using f hc by (simp add: card_sharers_put)
    moreover have "unat (shared_count k') = Suc (unat (shared_count k))"
      using sc(2) e by simp
    moreover have "object_block ?w b \<Longrightarrow> unat (shared_count k) = card (sharers (sptrs w) b)"
      using countsD(3) [OF c k] ob [of b] by simp
    ultimately show ?thesis using True le unfolding block_ok_def by simp
  next
    case False
    with k' have kw: "counters w c' = Some k'" by simp
    show ?thesis
    proof (rule block_ok_same [OF block_okD [OF c kw]])
      show "card (sharers (sptrs ?w) c') = card (sharers (sptrs w) c')"
        using False f hc by (simp add: card_sharers_put)
      show "card (sharers (wptrs ?w) c') = card (sharers (wptrs w) c')"
        by simp
      assume "object_block ?w c'"
      then show "object_block w c'" by (simp only: ob)
    qed
  qed
  show "agree ?w"
    unfolding agree_def
  proof (intro conjI allI impI)
    fix x y
    assume "(x \<in> ran (sptrs ?w) \<or> x \<in> ran (wptrs ?w)) \<and> (y \<in> ran (sptrs ?w) \<or> y \<in> ran (wptrs ?w)) \<and>
        counter x \<noteq> None \<and> counter x = counter y"
    with hr have "(x \<in> ran (sptrs w) \<or> x \<in> ran (wptrs w)) \<and> (y \<in> ran (sptrs w) \<or> y \<in> ran (wptrs w)) \<and>
        counter x \<noteq> None \<and> counter x = counter y"
      unfolding ran_s ran_w by blast
    with coherentD(3) [OF c] show "ptr x = ptr y" unfolding agree_def by blast
  next
    fix x y
    assume xy: "x \<in> ran (sptrs ?w) \<and> y \<in> ran (sptrs ?w) \<and> ptr x \<noteq> None \<and> ptr x = ptr y"
    then have "ptr x \<noteq> None" and pxy: "ptr x = ptr y" by blast+
    then obtain a where ax: "ptr x = Some a" by blast
    with pxy have "ptr y = Some a" by simp
    note a = ax this
    have *: "counter z = Some b" if "z \<in> ran (sptrs w)" "ptr z = Some a" "ptr h = Some a" for z
    proof -
      from owner [OF that(3)] obtain h0 where h0: "h0 \<in> ran (sptrs w)" "counter h0 = Some b" "ptr h0 = Some a"
        by blast
      from agree_counter [OF coherentD(3) [OF c] that(1) h0(1) that(2) h0(3)] h0(2) show ?thesis by simp
    qed
    from xy have "x = h \<or> x \<in> ran (sptrs w)" "y = h \<or> y \<in> ran (sptrs w)"
      unfolding ran_s by blast+
    then show "counter x = counter y"
    proof (elim disjE)
      assume "x = h" "y = h" then show ?thesis by simp
    next
      assume "x = h" "y \<in> ran (sptrs w)"
      with a hc * [of y] show ?thesis by simp
    next
      assume "x \<in> ran (sptrs w)" "y = h"
      with a hc * [of x] show ?thesis by simp
    next
      assume "x \<in> ran (sptrs w)" "y \<in> ran (sptrs w)"
      with xy coherentD(3) [OF c] show ?thesis unfolding agree_def by blast
    qed
  qed
  show "strong_ok ?w x" if "x \<in> ran (sptrs ?w)" for x
  proof -
    have hs: "strong_ok ?w h"
      using hc below_brk [OF c k] owner by (auto simp: strong_ok_iff)
    have "strong_ok ?w x" if o: "x \<in> ran (sptrs w)"
      using coherent_strong [OF c o] by (auto simp: strong_ok_iff)
    with hs that show ?thesis unfolding ran_s by auto
  qed
  show "weak_ok ?w x" if "x \<in> ran (wptrs ?w)" for x
  proof -
    from that have o: "x \<in> ran (wptrs w)" by simp
    from coherent_weak [OF c o] show ?thesis by (auto simp: weak_ok_iff)
  qed
qed

lemma coherent_acquire_weak:
  assumes c: "coherent w" and f: "wptrs w s = None"
    and h: "h \<in> ran (sptrs w) \<or> h \<in> ran (wptrs w)"
    and hc: "counter h = Some b" and k: "counters w b = Some k"
  shows "coherent (w\<lparr>wptrs := (wptrs w)(s \<mapsto> h),
                    counters := (counters w)(b \<mapsto> k\<lparr>weak_count := weak_count k + 1\<rparr>)\<rparr>)"
    (is "coherent ?w")
proof (rule coherentI)
  have ran_w: "ran (wptrs ?w) = insert h (ran (wptrs w))"
    using f by (simp add: ran_put)
  have ran_s: "ran (sptrs ?w) = ran (sptrs w)"
    by simp
  note wcnt = countsD(1) [OF c k]
  from wcnt have "unat (weak_count k) \<le> card (sharers (wptrs w) b)" by simp
  note sc = small_count [OF this]
  have ob: "object_block ?w c' \<longleftrightarrow> object_block w c'" for c'
    unfolding object_block_def ran_s ran_w using h by blast
  have ab: "a < brk w" if pa: "ptr h = Some a" for a
    using h
  proof
    assume "h \<in> ran (sptrs w)"
    from coherent_strong [OF c this] pa hc have "a \<in> objects w" by (auto simp: strong_ok_iff)
    then show ?thesis by (rule object_below [OF c])
  next
    assume "h \<in> ran (wptrs w)"
    from coherent_weak [OF c this] pa hc show ?thesis by (auto simp: weak_ok_iff)
  qed
  show "heap_ok ?w"
    by (rule heap_ok_update [OF coherentD(1) [OF c] k]) simp_all
  show "block_ok ?w c' k'" if k': "counters ?w c' = Some k'" for c' k'
  proof (cases "c' = b")
    case True
    with k' have e: "k' = k\<lparr>weak_count := weak_count k + 1\<rparr>" by simp
    have "card (sharers (wptrs ?w) b) = Suc (card (sharers (wptrs w) b))"
      using f hc by (simp add: card_sharers_put)
    moreover have "unat (weak_count k') = Suc (unat (weak_count k))"
      using sc(2) e by simp
    moreover have "object_block ?w b \<Longrightarrow> unat (shared_count k) = card (sharers (sptrs w) b)"
      using countsD(3) [OF c k] ob [of b] by simp
    ultimately show ?thesis using True e wcnt countsD(2) [OF c k] unfolding block_ok_def by simp
  next
    case False
    with k' have kw: "counters w c' = Some k'" by simp
    show ?thesis
    proof (rule block_ok_same [OF block_okD [OF c kw]])
      show "card (sharers (sptrs ?w) c') = card (sharers (sptrs w) c')"
        by simp
      show "card (sharers (wptrs ?w) c') = card (sharers (wptrs w) c')"
        using False f hc by (simp add: card_sharers_put)
      assume "object_block ?w c'"
      then show "object_block w c'" by (simp only: ob)
    qed
  qed
  show "agree ?w"
    unfolding agree_def
  proof (intro conjI allI impI)
    fix x y
    assume "(x \<in> ran (sptrs ?w) \<or> x \<in> ran (wptrs ?w)) \<and> (y \<in> ran (sptrs ?w) \<or> y \<in> ran (wptrs ?w)) \<and>
        counter x \<noteq> None \<and> counter x = counter y"
    with h have "(x \<in> ran (sptrs w) \<or> x \<in> ran (wptrs w)) \<and> (y \<in> ran (sptrs w) \<or> y \<in> ran (wptrs w)) \<and>
        counter x \<noteq> None \<and> counter x = counter y"
      unfolding ran_s ran_w by blast
    with coherentD(3) [OF c] show "ptr x = ptr y" unfolding agree_def by blast
  next
    fix x y
    assume xy: "x \<in> ran (sptrs ?w) \<and> y \<in> ran (sptrs ?w) \<and> ptr x \<noteq> None \<and> ptr x = ptr y"
    with coherentD(3) [OF c] show "counter x = counter y" unfolding agree_def ran_s by blast
  qed
  show "strong_ok ?w x" if "x \<in> ran (sptrs ?w)" for x
  proof -
    from that have o: "x \<in> ran (sptrs w)" by simp
    from coherent_strong [OF c o] show ?thesis by (auto simp: strong_ok_iff)
  qed
  show "weak_ok ?w x" if "x \<in> ran (wptrs ?w)" for x
  proof -
    have hs: "weak_ok ?w h"
      using ab hc by (auto simp: weak_ok_iff)
    have "weak_ok ?w x" if o: "x \<in> ran (wptrs w)"
      using coherent_weak [OF c o] by (auto simp: weak_ok_iff)
    with hs that show ?thesis unfolding ran_w by auto
  qed
qed

lemma weak_dec:
  assumes c: "coherent w" and t: "wptrs w s = Some t" and tc: "counter t = Some b"
    and k: "counters w b = Some k"
  shows "weak_count k \<noteq> 0"
    and "unat (weak_count k - 1) = card (sharers ((wptrs w)(s := None)) b)"
    and "unat (weak_count k) = Suc (card (sharers ((wptrs w)(s := None)) b))"
proof -
  note wcnt = countsD(1) [OF c k]
  with card_sharers_drop [of "wptrs w" s t b] t tc
  show e: "unat (weak_count k) = Suc (card (sharers ((wptrs w)(s := None)) b))" by simp
  then show nz: "weak_count k \<noteq> 0" by (metis Zero_not_Suc unat_0)
  from e show "unat (weak_count k - 1) = card (sharers ((wptrs w)(s := None)) b)"
    by (simp add: unat_minus_one [OF nz])
qed

lemma coherent_reset_weak:
  assumes c: "coherent w" and t: "wptrs w s = Some t" and tc: "counter t = Some b"
    and k: "counters w b = Some k"
  shows "coherent (w\<lparr>counters := (counters w)(b \<mapsto> k\<lparr>weak_count := weak_count k - 1\<rparr>),
                    wptrs := (wptrs w)(s \<mapsto> nullptr)\<rparr>)"
    (is "coherent ?w")
proof (rule coherentI)
  note wd = weak_dec [OF c t tc k]
  have ran_w: "ran (wptrs ?w) \<subseteq> insert nullptr (ran (wptrs w))"
    using ran_null_out [of "wptrs w" s] by simp
  have ran_s: "ran (sptrs ?w) \<subseteq> insert nullptr (ran (sptrs w))"
    by auto
  have sh: "sharers (wptrs ?w) c' = sharers ((wptrs w)(s := None)) c'" for c'
    by (simp add: sharers_put_null)
  have m: "object_block ?w c' \<Longrightarrow> object_block w c'" for c'
    by (rule object_block_mono [OF ran_s ran_w])
  show "heap_ok ?w"
    by (rule heap_ok_update [OF coherentD(1) [OF c] k]) simp_all
  show "block_ok ?w c' k'" if k': "counters ?w c' = Some k'" for c' k'
  proof (cases "c' = b")
    case True
    with k' have e: "k' = k\<lparr>weak_count := weak_count k - 1\<rparr>" by simp
    have "object_block ?w b \<Longrightarrow> unat (shared_count k) = card (sharers (sptrs w) b)"
      using countsD(3) [OF c k] m [of b] by simp
    then show ?thesis
      using True e wd(2) countsD(2) [OF c k] unfolding block_ok_def sh by simp
  next
    case False
    with k' have kw: "counters w c' = Some k'" by simp
    show ?thesis
    proof (rule block_ok_same [OF block_okD [OF c kw]])
      show "card (sharers (sptrs ?w) c') = card (sharers (sptrs w) c')"
        by simp
      show "card (sharers (wptrs ?w) c') = card (sharers (wptrs w) c')"
        unfolding sh using False sharers_drop_other [of "wptrs w" s t b c', OF t tc] by simp
      assume "object_block ?w c'"
      then show "object_block w c'" by (rule m)
    qed
  qed
  show "agree ?w"
    by (rule agree_mono [OF coherentD(3) [OF c] ran_s ran_w])
  show "strong_ok ?w x" if "x \<in> ran (sptrs ?w)" for x
  proof -
    from that have o: "x \<in> ran (sptrs w)" by simp
    from coherent_strong [OF c o] show ?thesis by (auto simp: strong_ok_iff)
  qed
  show "weak_ok ?w x" if "x \<in> ran (wptrs ?w)" for x
  proof -
    from that ran_w have "x = nullptr \<or> x \<in> ran (wptrs w)" by blast
    then show ?thesis
    proof
      assume "x = nullptr" then show ?thesis by simp
    next
      assume o: "x \<in> ran (wptrs w)"
      from coherent_weak [OF c o] show ?thesis by (auto simp: weak_ok_iff)
    qed
  qed
qed

lemma strong_dec:
  assumes c: "coherent w" and t: "sptrs w s = Some t" and tc: "counter t = Some b"
    and k: "counters w b = Some k"
  shows "card (sharers (sptrs w) b) = Suc (card (sharers ((sptrs w)(s := None)) b))"
    and "unat (shared_count k) - 1 \<le> card (sharers ((sptrs w)(s := None)) b)"
    and "object_block w b \<Longrightarrow> shared_count k \<noteq> 0"
    and "object_block w b \<Longrightarrow> unat (shared_count k) = Suc (card (sharers ((sptrs w)(s := None)) b))"
proof -
  from card_sharers_drop [of "sptrs w" s t b] t tc
  show e: "card (sharers (sptrs w) b) = Suc (card (sharers ((sptrs w)(s := None)) b))" by simp
  from countsD(2) [OF c k] e
  show "unat (shared_count k) - 1 \<le> card (sharers ((sptrs w)(s := None)) b)" by simp
  assume ob: "object_block w b"
  from countsD(3) [OF c k ob] e
  show f: "unat (shared_count k) = Suc (card (sharers ((sptrs w)(s := None)) b))" by simp
  then show "shared_count k \<noteq> 0" by (metis Zero_not_Suc unat_0)
qed

lemma unat_dec: "unat (if (x :: size_t) > 0 then x - 1 else x) = unat x - 1"
  by (cases "x = 0") (simp_all add: unat_minus_one word_greater_zero_iff)

lemma coherent_dec_strong:
  assumes c: "coherent w" and t: "sptrs w s = Some t" and tc: "counter t = Some b"
    and k: "counters w b = Some k"
  shows "coherent (w\<lparr>counters := (counters w)(b \<mapsto> k\<lparr>shared_count := (if shared_count k > 0 then shared_count k - 1 else shared_count k)\<rparr>),
                    sptrs := (sptrs w)(s \<mapsto> nullptr)\<rparr>)"
    (is "coherent ?w")
proof (rule coherentI)
  let ?n = "if shared_count k > 0 then shared_count k - 1 else shared_count k"
  note sd = strong_dec [OF c t tc k]
  have n1: "unat ?n = unat (shared_count k) - 1" by (rule unat_dec)
  from t have tr: "t \<in> ran (sptrs w)" by (auto simp: in_ran)
  have ran_s: "ran (sptrs ?w) \<subseteq> insert nullptr (ran (sptrs w))"
    using ran_null_out [of "sptrs w" s] by simp
  have ran_w: "ran (wptrs ?w) \<subseteq> insert nullptr (ran (wptrs w))"
    by auto
  have sh: "sharers (sptrs ?w) c' = sharers ((sptrs w)(s := None)) c'" for c'
    by (simp add: sharers_put_null)
  have m: "object_block ?w c' \<Longrightarrow> object_block w c'" for c'
    by (rule object_block_mono [OF ran_s ran_w])
  show "heap_ok ?w"
    by (rule heap_ok_update [OF coherentD(1) [OF c] k]) simp_all
  show "block_ok ?w c' k'" if k': "counters ?w c' = Some k'" for c' k'
  proof (cases "c' = b")
    case True
    with k' have e: "k' = k\<lparr>shared_count := ?n\<rparr>" by simp
    have "unat (weak_count k') = card (sharers (wptrs ?w) b)"
      using countsD(1) [OF c k] e by simp
    moreover have "unat (shared_count k') \<le> card (sharers (sptrs ?w) b)"
      unfolding sh using sd(2) n1 e by simp
    moreover have "unat (shared_count k') = card (sharers (sptrs ?w) b)" if "object_block ?w b"
      unfolding sh using sd(4) [OF m [OF that]] n1 e by simp
    ultimately show ?thesis using True unfolding block_ok_def by blast
  next
    case False
    with k' have kw: "counters w c' = Some k'" by simp
    show ?thesis
    proof (rule block_ok_same [OF block_okD [OF c kw]])
      show "card (sharers (sptrs ?w) c') = card (sharers (sptrs w) c')"
        unfolding sh using False sharers_drop_other [of "sptrs w" s t b c', OF t tc] by simp
      show "card (sharers (wptrs ?w) c') = card (sharers (wptrs w) c')"
        by simp
      assume "object_block ?w c'"
      then show "object_block w c'" by (rule m)
    qed
  qed
  show "agree ?w"
    by (rule agree_mono [OF coherentD(3) [OF c] ran_s ran_w])
  show "strong_ok ?w x" if "x \<in> ran (sptrs ?w)" for x
  proof -
    from that ran_s have "x = nullptr \<or> x \<in> ran (sptrs w)" by blast
    then show ?thesis
    proof
      assume "x = nullptr" then show ?thesis by simp
    next
      assume o: "x \<in> ran (sptrs w)"
      from coherent_strong [OF c o] show ?thesis by (auto simp: strong_ok_iff)
    qed
  qed
  show "weak_ok ?w x" if "x \<in> ran (wptrs ?w)" for x
  proof -
    from that have o: "x \<in> ran (wptrs w)" by simp
    from coherent_weak [OF c o] show ?thesis by (auto simp: weak_ok_iff)
  qed
qed

lemma coherent_drop_strong:
  assumes c: "coherent w" and t: "sptrs w s = Some h" and n: "counter h = None"
  shows "coherent (w\<lparr>sptrs := (sptrs w)(s := None)\<rparr>)"
proof -
  have "coherent (w\<lparr>sptrs := (sptrs w)(s := None), wptrs := wptrs w\<rparr>)"
    using ran_drop [of "sptrs w" s]
    by (intro coherent_tables [OF c]) (auto simp: sharers_drop_unshared [of "sptrs w" s h, OF t n])
  then show ?thesis by simp
qed

lemma coherent_drop_weak:
  assumes c: "coherent w" and t: "wptrs w s = Some h" and n: "counter h = None"
  shows "coherent (w\<lparr>wptrs := (wptrs w)(s := None)\<rparr>)"
proof -
  have "coherent (w\<lparr>sptrs := sptrs w, wptrs := (wptrs w)(s := None)\<rparr>)"
    using ran_drop [of "wptrs w" s]
    by (intro coherent_tables [OF c]) (auto simp: sharers_drop_unshared [of "wptrs w" s h, OF t n])
  then show ?thesis by simp
qed

lemma coherent_unnull:
  assumes "coherent (v\<lparr>sptrs := m(s \<mapsto> nullptr)\<rparr>)"
  shows "coherent (v\<lparr>sptrs := m(s := None)\<rparr>)"
  by (rule coherent_cong [OF coherent_drop_strong [OF assms, of s nullptr]])
    (simp_all add: nullptr_def)

lemma coherent_unnull_weak:
  assumes "coherent (v\<lparr>wptrs := m(s \<mapsto> nullptr)\<rparr>)"
  shows "coherent (v\<lparr>wptrs := m(s := None)\<rparr>)"
  by (rule coherent_cong [OF coherent_drop_weak [OF assms, of s nullptr]])
    (simp_all add: nullptr_def)

lemma coherent_free:
  assumes c: "coherent w" and k: "counters w b = Some k"
    and us: "\<And>x. x \<in> ran (sptrs w) \<Longrightarrow> counter x = Some b \<Longrightarrow> ptr x = None"
    and uw: "sharers (wptrs w) b = {}"
  shows "coherent (w\<lparr>counters := (counters w)(b := None), events := events w @ [Freed_counter b]\<rparr>)"
    (is "coherent ?w")
proof (rule coherentI)
  from coherentD(1) [OF c] k have nf: "Freed_counter b \<notin> set (events w)" and bb: "b < brk w"
    unfolding heap_ok_def by (metis option.distinct(1))+
  show "heap_ok ?w"
    using coherentD(1) [OF c] nf bb unfolding heap_ok_def by auto
  show "block_ok ?w c' k'" if "counters ?w c' = Some k'" for c' k'
    using block_okD [OF c, of c' k'] that by (auto split: if_splits)
  show "agree ?w"
    using coherentD(3) [OF c] by simp
  show "strong_ok ?w x" if "x \<in> ran (sptrs ?w)" for x
  proof -
    from that have o: "x \<in> ran (sptrs w)" by simp
    from coherent_strong [OF c o] us [OF o] show ?thesis by (auto simp: strong_ok_iff)
  qed
  show "weak_ok ?w x" if "x \<in> ran (wptrs ?w)" for x
  proof -
    from that have o: "x \<in> ran (wptrs w)" by simp
    from coherent_weak [OF c o] unshared_ran [OF uw o] show ?thesis by (simp add: weak_ok_iff)
  qed
qed

lemma coherent_destroy:
  assumes c: "coherent w" and a: "a \<in> objects w"
    and u: "\<And>x. x \<in> ran (sptrs w) \<Longrightarrow> ptr x \<noteq> Some a"
  shows "coherent (w\<lparr>objects := objects w - {a}, events := events w @ [Destroyed_object a]\<rparr>)"
    (is "coherent ?w")
proof (rule coherentI)
  from coherentD(1) [OF c] a have nf: "Destroyed_object a \<notin> set (events w)" and bb: "a < brk w"
    unfolding heap_ok_def by blast+
  show "heap_ok ?w"
    using coherentD(1) [OF c] nf bb unfolding heap_ok_def by auto
  show "block_ok ?w c' k'" if "counters ?w c' = Some k'" for c' k'
    using block_okD [OF c, of c' k'] that by simp
  show "agree ?w"
    using coherentD(3) [OF c] by simp
  show "strong_ok ?w x" if "x \<in> ran (sptrs ?w)" for x
  proof -
    from that have o: "x \<in> ran (sptrs w)" by simp
    from coherent_strong [OF c o] u [OF o] show ?thesis by (auto simp: strong_ok_iff)
  qed
  show "weak_ok ?w x" if "x \<in> ran (wptrs ?w)" for x
    using coherent_weak [OF c, of x] that by simp
qed

section \<open>Releasing a handle\<close>

lemma strong_count_simps [simp]:
  "strong_count (w\<lparr>sptrs := ms\<rparr>) = strong_count w"
  "strong_count (w\<lparr>wptrs := mw\<rparr>) = strong_count w"
  "strong_count (w\<lparr>objects := os\<rparr>) = strong_count w"
  "strong_count (w\<lparr>brk := n\<rparr>) = strong_count w"
  "strong_count (w\<lparr>events := es\<rparr>) = strong_count w"
  by (simp_all add: strong_count_def fun_eq_iff)

lemma SharedPtr_DecreaseAndDelete_eq:
  assumes "counter t = Some b" and "counters w b = Some k"
    and "n = (if shared_count k > 0 then shared_count k - 1 else shared_count k)"
  shows "SharedPtr_DecreaseAndDelete t w =
           (if n = 0 \<and> weak_count k = 0
            then delete_ptr (ptr t) (w\<lparr>counters := (counters w)(b := None),
                                       events := events w @ [Freed_counter b]\<rparr>)
            else if n = 0
            then delete_ptr (ptr t) (w\<lparr>counters := (counters w)(b \<mapsto> k\<lparr>shared_count := n\<rparr>)\<rparr>)
            else Returns () (w\<lparr>counters := (counters w)(b \<mapsto> k\<lparr>shared_count := n\<rparr>)\<rparr>))"
proof (cases "shared_count k = 0")
  case True
  then have e: "k\<lparr>shared_count := 0\<rparr> = k" by (cases k) simp
  from assms True show ?thesis
    by (simp add: SharedPtr_DecreaseAndDelete_def and_then_def delete_counter_def Let_def e)
next
  case False
  with assms show ?thesis
    by (simp add: SharedPtr_DecreaseAndDelete_def and_then_def delete_counter_def Let_def
        word_greater_zero_iff)
qed

lemma release_facts:
  assumes c: "coherent w" and t: "sptrs w s = Some t" and tc: "counter t = Some b"
    and k: "counters w b = Some k"
    and n: "n = (if shared_count k > 0 then shared_count k - 1 else shared_count k)"
  shows "coherent (w\<lparr>counters := (counters w)(b \<mapsto> k\<lparr>shared_count := n\<rparr>),
                    sptrs := (sptrs w)(s \<mapsto> nullptr)\<rparr>)"
    and "unat n = strong_count w b - 1"
    and "ptr t = Some a \<Longrightarrow> a \<in> objects w"
    and "ptr t = Some a \<Longrightarrow> n = 0 \<longleftrightarrow> strong_count w b = 1"
    and "n = 0 \<Longrightarrow> x \<in> ran ((sptrs w)(s \<mapsto> nullptr)) \<Longrightarrow> counter x = Some b \<Longrightarrow> ptr x = None"
    and "ptr t = Some a \<Longrightarrow> n = 0 \<Longrightarrow> x \<in> ran ((sptrs w)(s \<mapsto> nullptr)) \<Longrightarrow> ptr x \<noteq> Some a"
proof -
  note sd = strong_dec [OF c t tc k]
  from t have tr: "t \<in> ran (sptrs w)" by (auto simp: in_ran)
  show "coherent (w\<lparr>counters := (counters w)(b \<mapsto> k\<lparr>shared_count := n\<rparr>),
                    sptrs := (sptrs w)(s \<mapsto> nullptr)\<rparr>)"
    unfolding n by (rule coherent_dec_strong [OF c t tc k])
  show n1: "unat n = strong_count w b - 1"
    unfolding n using k by (simp add: unat_dec strong_count_def)
  have obj: "object_block w b" if "ptr t = Some a" for a
    using tr tc that by (intro object_blockI [of t]) simp_all
  show "a \<in> objects w" if "ptr t = Some a"
    using coherent_strong [OF c tr] tc that by (auto simp: strong_ok_iff)
  show "n = 0 \<longleftrightarrow> strong_count w b = 1" if pa: "ptr t = Some a"
  proof -
    from sd(4) [OF obj [OF pa]] k have "strong_count w b \<noteq> 0" by (simp add: strong_count_def)
    with n1 show ?thesis by (auto simp: unat_eq_0)
  qed
  have others: "x \<in> ran (sptrs w) \<and> (\<exists>s'. s' \<noteq> s \<and> sptrs w s' = Some x)"
    if "x \<in> ran ((sptrs w)(s \<mapsto> nullptr))" "x \<noteq> nullptr" for x
    using that by (auto simp: in_ran split: if_splits)
  show null: "ptr x = None"
    if z: "n = 0" and x: "x \<in> ran ((sptrs w)(s \<mapsto> nullptr))" and xc: "counter x = Some b" for x
  proof (rule ccontr)
    assume "ptr x \<noteq> None"
    then obtain a' where pa': "ptr x = Some a'" by blast
    from xc have "x \<noteq> nullptr" by (auto simp: nullptr_def)
    from others [OF x this] obtain s' where xr: "x \<in> ran (sptrs w)" and s': "s' \<noteq> s" "sptrs w s' = Some x"
      by blast
    have ob: "object_block w b" using xr xc pa' by (intro object_blockI [of x]) simp_all
    from s' xc have "s' \<in> sharers ((sptrs w)(s := None)) b" by (simp add: mem_sharers)
    then have ne: "card (sharers ((sptrs w)(s := None)) b) \<noteq> 0" by (auto simp: card_eq_0_iff)
    have "strong_count w b = unat (shared_count k)" using k by (simp add: strong_count_def)
    with sd(4) [OF ob] ne have "2 \<le> strong_count w b" by linarith
    with n1 z show False by simp
  qed
  show "ptr x \<noteq> Some a"
    if pa: "ptr t = Some a" and z: "n = 0" and x: "x \<in> ran ((sptrs w)(s \<mapsto> nullptr))" for x
  proof
    assume px: "ptr x = Some a"
    then have "x \<noteq> nullptr" by (auto simp: nullptr_def)
    from others [OF x this] have xr: "x \<in> ran (sptrs w)" by blast
    from agree_counter [OF coherentD(3) [OF c] xr tr px pa] tc have "counter x = Some b" by simp
    from null [OF z x this] px show False by simp
  qed
qed

lemma release_strong:
  assumes c: "coherent w" and t: "sptrs w s = Some t"
    and live: "\<forall>b. counter t = Some b \<longrightarrow> counters w b \<noteq> None"
  obtains w1 evs where "SharedPtr_DecreaseAndDelete t w = Returns () w1"
    and "sptrs w1 = sptrs w" and "wptrs w1 = wptrs w" and "brk w1 = brk w"
    and "coherent (w1\<lparr>sptrs := (sptrs w)(s := None)\<rparr>)"
    and "events w1 = events w @ evs"
    and "\<And>a. Destroyed_object a \<in> set evs \<longleftrightarrow>
           ptr t = Some a \<and> (\<exists>b. counter t = Some b \<and> strong_count w b = 1)"
    and "\<And>b. strong_count w1 b = (if counter t = Some b then strong_count w b - 1 else strong_count w b)"
    and "\<And>a. a \<in> objects w1 \<longleftrightarrow> a \<in> objects w \<and> Destroyed_object a \<notin> set evs"
proof (cases "counter t")
  case None
  have "SharedPtr_DecreaseAndDelete t w = Returns () w"
    using None by (simp add: SharedPtr_DecreaseAndDelete_def)
  moreover have "coherent (w\<lparr>sptrs := (sptrs w)(s := None)\<rparr>)"
    by (rule coherent_drop_strong [OF c t None])
  ultimately show ?thesis using None by (intro that [of w "[]"]) simp_all
next
  case (Some b)
  note tc = Some
  from live tc obtain k where k: "counters w b = Some k" by blast
  define n where "n = (if shared_count k > 0 then shared_count k - 1 else shared_count k)"
  note eq = SharedPtr_DecreaseAndDelete_eq [OF tc k n_def]
  note rf = release_facts [OF c t tc k n_def]
  let ?k1 = "k\<lparr>shared_count := n\<rparr>"
  let ?wa = "w\<lparr>counters := (counters w)(b \<mapsto> ?k1), sptrs := (sptrs w)(s \<mapsto> nullptr)\<rparr>"
  let ?wb = "?wa\<lparr>counters := (counters ?wa)(b := None), events := events ?wa @ [Freed_counter b]\<rparr>"
  have ca: "coherent ?wa" by (rule rf(1))
  have cb: "coherent ?wb" if z: "n = 0" and wz: "weak_count k = 0"
  proof (rule coherent_free [OF ca, of b ?k1])
    show "counters ?wa b = Some ?k1" by simp
    show "ptr x = None" if "x \<in> ran (sptrs ?wa)" "counter x = Some b" for x
      using rf(5) [OF z, of x] that by simp
    from countsD(1) [OF c k] wz have "card (sharers (wptrs w) b) = 0" by simp
    then show "sharers (wptrs ?wa) b = {}" by simp
  qed
  show ?thesis
  proof (cases "n = 0")
    case False
    let ?w1 = "w\<lparr>counters := (counters w)(b \<mapsto> ?k1)\<rparr>"
    have r: "SharedPtr_DecreaseAndDelete t w = Returns () ?w1"
      using eq False by simp
    have "coherent (?w1\<lparr>sptrs := (sptrs w)(s \<mapsto> nullptr)\<rparr>)"
      by (rule coherent_cong [OF ca]) simp_all
    then have cc: "coherent (?w1\<lparr>sptrs := (sptrs w)(s := None)\<rparr>)"
      by (rule coherent_unnull)
    have sc: "strong_count ?w1 b' = (if counter t = Some b' then strong_count w b' - 1 else strong_count w b')" for b'
      using tc rf(2) by (auto simp: strong_count_def)
    have de: "Destroyed_object x \<in> set [] \<longleftrightarrow>
           ptr t = Some x \<and> (\<exists>b. counter t = Some b \<and> strong_count w b = 1)" for x
      using tc rf(4) [of x] False by auto
    show ?thesis
      using r cc sc de by (intro that [of ?w1 "[]"]) simp_all
  next
    case True
    note z = True
    show ?thesis
    proof (cases "weak_count k = 0")
      case True
      note wz = True
      show ?thesis
      proof (cases "ptr t")
        case None
        let ?w1 = "w\<lparr>counters := (counters w)(b := None), events := events w @ [Freed_counter b]\<rparr>"
        have r: "SharedPtr_DecreaseAndDelete t w = Returns () ?w1"
          using eq z wz None by (simp add: delete_ptr_def)
        have "coherent (?w1\<lparr>sptrs := (sptrs w)(s \<mapsto> nullptr)\<rparr>)"
          by (rule coherent_cong [OF cb [OF z wz]]) simp_all
        then have cc: "coherent (?w1\<lparr>sptrs := (sptrs w)(s := None)\<rparr>)"
          by (rule coherent_unnull)
        have sc: "strong_count ?w1 b' = (if counter t = Some b' then strong_count w b' - 1 else strong_count w b')" for b'
          using tc rf(2) z by (auto simp: strong_count_def)
        have de: "Destroyed_object x \<in> set [Freed_counter b] \<longleftrightarrow>
           ptr t = Some x \<and> (\<exists>b. counter t = Some b \<and> strong_count w b = 1)" for x
          using None by simp
        show ?thesis
          using r cc sc de by (intro that [of ?w1 "[Freed_counter b]"]) simp_all
      next
        case (Some a)
        note pa = Some
        let ?w1 = "w\<lparr>counters := (counters w)(b := None), objects := objects w - {a},
                     events := events w @ [Freed_counter b, Destroyed_object a]\<rparr>"
        have r: "SharedPtr_DecreaseAndDelete t w = Returns () ?w1"
          using eq z wz pa rf(3) [OF pa] by (simp add: delete_ptr_def)
        have "coherent (?wb\<lparr>objects := objects ?wb - {a}, events := events ?wb @ [Destroyed_object a]\<rparr>)"
          using rf(3) [OF pa] rf(6) [OF pa z] by (intro coherent_destroy [OF cb [OF z wz]]) simp_all
        then have "coherent (?w1\<lparr>sptrs := (sptrs w)(s \<mapsto> nullptr)\<rparr>)"
          by (rule coherent_cong) simp_all
        then have cc: "coherent (?w1\<lparr>sptrs := (sptrs w)(s := None)\<rparr>)"
          by (rule coherent_unnull)
        have sc: "strong_count ?w1 b' = (if counter t = Some b' then strong_count w b' - 1 else strong_count w b')" for b'
          using tc rf(2) z by (auto simp: strong_count_def)
        have ob: "x \<in> objects ?w1 \<longleftrightarrow> x \<in> objects w \<and> Destroyed_object x \<notin> set [Freed_counter b, Destroyed_object a]" for x
          by auto
        have de: "Destroyed_object x \<in> set [Freed_counter b, Destroyed_object a] \<longleftrightarrow>
           ptr t = Some x \<and> (\<exists>b. counter t = Some b \<and> strong_count w b = 1)" for x
          using tc pa rf(4) [OF pa] z by auto
        show ?thesis
          using r cc sc ob de by (intro that [of ?w1 "[Freed_counter b, Destroyed_object a]"]) simp_all
      qed
    next
      case False
      note wz = False
      show ?thesis
      proof (cases "ptr t")
        case None
        let ?w1 = "w\<lparr>counters := (counters w)(b \<mapsto> ?k1)\<rparr>"
        have r: "SharedPtr_DecreaseAndDelete t w = Returns () ?w1"
          using eq z wz None by (simp add: delete_ptr_def)
        have "coherent (?w1\<lparr>sptrs := (sptrs w)(s \<mapsto> nullptr)\<rparr>)"
          by (rule coherent_cong [OF ca]) simp_all
        then have cc: "coherent (?w1\<lparr>sptrs := (sptrs w)(s := None)\<rparr>)"
          by (rule coherent_unnull)
        have sc: "strong_count ?w1 b' = (if counter t = Some b' then strong_count w b' - 1 else strong_count w b')" for b'
          using tc rf(2) by (auto simp: strong_count_def)
        have de: "Destroyed_object x \<in> set [] \<longleftrightarrow>
           ptr t = Some x \<and> (\<exists>b. counter t = Some b \<and> strong_count w b = 1)" for x
          using None by simp
        show ?thesis
          using r cc sc de by (intro that [of ?w1 "[]"]) simp_all
      next
        case (Some a)
        note pa = Some
        let ?w1 = "w\<lparr>counters := (counters w)(b \<mapsto> ?k1), objects := objects w - {a},
                     events := events w @ [Destroyed_object a]\<rparr>"
        have r: "SharedPtr_DecreaseAndDelete t w = Returns () ?w1"
          using eq z wz pa rf(3) [OF pa] by (simp add: delete_ptr_def)
        have "coherent (?wa\<lparr>objects := objects ?wa - {a}, events := events ?wa @ [Destroyed_object a]\<rparr>)"
          using rf(3) [OF pa] rf(6) [OF pa z] by (intro coherent_destroy [OF ca]) simp_all
        then have "coherent (?w1\<lparr>sptrs := (sptrs w)(s \<mapsto> nullptr)\<rparr>)"
          by (rule coherent_cong) simp_all
        then have cc: "coherent (?w1\<lparr>sptrs := (sptrs w)(s := None)\<rparr>)"
          by (rule coherent_unnull)
        have sc: "strong_count ?w1 b' = (if counter t = Some b' then strong_count w b' - 1 else strong_count w b')" for b'
          using tc rf(2) by (auto simp: strong_count_def)
        have ob: "x \<in> objects ?w1 \<longleftrightarrow> x \<in> objects w \<and> Destroyed_object x \<notin> set [Destroyed_object a]" for x
          by auto
        have de: "Destroyed_object x \<in> set [Destroyed_object a] \<longleftrightarrow>
           ptr t = Some x \<and> (\<exists>b. counter t = Some b \<and> strong_count w b = 1)" for x
          using tc pa rf(4) [OF pa] z by auto
        show ?thesis
          using r cc sc ob de by (intro that [of ?w1 "[Destroyed_object a]"]) simp_all
      qed
    qed
  qed
qed

lemma release_weak:
  assumes c: "coherent w" and t: "wptrs w s = Some t"
  obtains w1 evs where "WeakPtr_DecreaseAndDelete t w = Returns () w1"
    and "sptrs w1 = sptrs w" and "wptrs w1 = wptrs w" and "brk w1 = brk w"
    and "objects w1 = objects w"
    and "coherent (w1\<lparr>wptrs := (wptrs w)(s := None)\<rparr>)"
    and "events w1 = events w @ evs"
    and "\<And>a. Destroyed_object a \<notin> set evs"
    and "\<And>b. strong_count w1 b = strong_count w b"
proof (cases "counter t")
  case None
  have "WeakPtr_DecreaseAndDelete t w = Returns () w"
    using None by (simp add: WeakPtr_DecreaseAndDelete_def)
  moreover have "coherent (w\<lparr>wptrs := (wptrs w)(s := None)\<rparr>)"
    by (rule coherent_drop_weak [OF c t None])
  ultimately show ?thesis by (intro that [of w "[]"]) simp_all
next
  case (Some b)
  note tc = Some
  from weak_live [OF c t tc] obtain k where k: "counters w b = Some k" by blast
  note wd = weak_dec [OF c t tc k]
  let ?k1 = "k\<lparr>weak_count := weak_count k - 1\<rparr>"
  let ?wa = "w\<lparr>counters := (counters w)(b \<mapsto> ?k1), wptrs := (wptrs w)(s \<mapsto> nullptr)\<rparr>"
  have ca: "coherent ?wa" by (rule coherent_reset_weak [OF c t tc k])
  show ?thesis
  proof (cases "weak_count k - 1 = 0 \<and> shared_count k = 0")
    case False
    let ?w1 = "w\<lparr>counters := (counters w)(b \<mapsto> ?k1)\<rparr>"
    have r: "WeakPtr_DecreaseAndDelete t w = Returns () ?w1"
      using tc k wd(1) False
      by (auto simp: WeakPtr_DecreaseAndDelete_def prims Let_def word_greater_zero_iff)
    have "coherent (?w1\<lparr>wptrs := (wptrs w)(s \<mapsto> nullptr)\<rparr>)"
      by (rule coherent_cong [OF ca]) simp_all
    then have cc: "coherent (?w1\<lparr>wptrs := (wptrs w)(s := None)\<rparr>)"
      by (rule coherent_unnull_weak)
    have sc: "strong_count ?w1 b' = strong_count w b'" for b'
      using k by (auto simp: strong_count_def)
    show ?thesis
      using r cc sc by (intro that [of ?w1 "[]"]) simp_all
  next
    case True
    let ?w1 = "w\<lparr>counters := (counters w)(b := None), events := events w @ [Freed_counter b]\<rparr>"
    have r: "WeakPtr_DecreaseAndDelete t w = Returns () ?w1"
      using tc k wd(1) True
      by (auto simp: WeakPtr_DecreaseAndDelete_def prims Let_def word_greater_zero_iff)
    from wd(2) True have "card (sharers ((wptrs w)(s := None)) b) = 0" by simp
    then have uw: "sharers ((wptrs w)(s := None)) b = {}" by simp
    have us: "ptr x = None" if xr: "x \<in> ran (sptrs w)" and xc: "counter x = Some b" for x
    proof (rule ccontr)
      assume "ptr x \<noteq> None"
      then obtain a where pa: "ptr x = Some a" by blast
      from c xr xc pa obtain k' where "counters w b = Some k'" "shared_count k' \<noteq> 0"
        by (rule object_owner)
      with k True show False by simp
    qed
    have "coherent (?wa\<lparr>counters := (counters ?wa)(b := None), events := events ?wa @ [Freed_counter b]\<rparr>)"
      using us uw by (intro coherent_free [OF ca, of b ?k1]) (simp_all add: sharers_put_null)
    then have "coherent (?w1\<lparr>wptrs := (wptrs w)(s \<mapsto> nullptr)\<rparr>)"
      by (rule coherent_cong) simp_all
    then have cc: "coherent (?w1\<lparr>wptrs := (wptrs w)(s := None)\<rparr>)"
      by (rule coherent_unnull_weak)
    have sc: "strong_count ?w1 b' = strong_count w b'" for b'
      using k True by (auto simp: strong_count_def)
    show ?thesis
      using r cc sc by (intro that [of ?w1 "[Freed_counter b]"]) simp_all
  qed
qed

section \<open>Moving and swapping handles\<close>

lemma coherent_put_null_strong:
  assumes c: "coherent w" and f: "sptrs w s = None"
  shows "coherent (w\<lparr>sptrs := (sptrs w)(s \<mapsto> nullptr)\<rparr>)"
proof -
  have "coherent (w\<lparr>sptrs := (sptrs w)(s \<mapsto> nullptr), wptrs := wptrs w\<rparr>)"
    using ran_put_sub [of "sptrs w" s nullptr] f
    by (intro coherent_tables [OF c]) (auto simp: card_sharers_put nullptr_def)
  then show ?thesis by simp
qed

lemma coherent_put_null_weak:
  assumes c: "coherent w" and f: "wptrs w s = None"
  shows "coherent (w\<lparr>wptrs := (wptrs w)(s \<mapsto> nullptr)\<rparr>)"
proof -
  have "coherent (w\<lparr>sptrs := sptrs w, wptrs := (wptrs w)(s \<mapsto> nullptr)\<rparr>)"
    using ran_put_sub [of "wptrs w" s nullptr] f
    by (intro coherent_tables [OF c]) (auto simp: card_sharers_put nullptr_def)
  then show ?thesis by simp
qed

lemma coherent_move_strong:
  assumes c: "coherent w" and f: "sptrs w s = None" and o: "sptrs w other = Some h"
  shows "coherent (w\<lparr>sptrs := (sptrs w)(s \<mapsto> h, other \<mapsto> nullptr)\<rparr>)"
proof -
  have "coherent (w\<lparr>sptrs := (sptrs w)(s \<mapsto> h, other \<mapsto> nullptr), wptrs := wptrs w\<rparr>)"
    using ran_move [of "sptrs w" other h s, OF o]
    by (intro coherent_tables [OF c]) (auto simp: card_sharers_move [OF f o])
  then show ?thesis by simp
qed

lemma coherent_move_weak:
  assumes c: "coherent w" and f: "wptrs w s = None" and o: "wptrs w other = Some h"
  shows "coherent (w\<lparr>wptrs := (wptrs w)(s \<mapsto> h, other \<mapsto> nullptr)\<rparr>)"
proof -
  have "coherent (w\<lparr>sptrs := sptrs w, wptrs := (wptrs w)(s \<mapsto> h, other \<mapsto> nullptr)\<rparr>)"
    using ran_move [of "wptrs w" other h s, OF o]
    by (intro coherent_tables [OF c]) (auto simp: card_sharers_move [OF f o])
  then show ?thesis by simp
qed

lemma coherent_swap_strong:
  assumes c: "coherent w" and a: "sptrs w s = Some x" and b: "sptrs w other = Some y"
  shows "coherent (w\<lparr>sptrs := (sptrs w)(s \<mapsto> y, other \<mapsto> x)\<rparr>)"
proof -
  have "coherent (w\<lparr>sptrs := (sptrs w)(s \<mapsto> y, other \<mapsto> x), wptrs := wptrs w\<rparr>)"
    using ran_swap [of "sptrs w" s x other y, OF a b]
    by (intro coherent_tables [OF c]) (auto simp: card_sharers_swap [OF a b])
  then show ?thesis by simp
qed

lemma coherent_swap_weak:
  assumes c: "coherent w" and a: "wptrs w s = Some x" and b: "wptrs w other = Some y"
  shows "coherent (w\<lparr>wptrs := (wptrs w)(s \<mapsto> y, other \<mapsto> x)\<rparr>)"
proof -
  have "coherent (w\<lparr>sptrs := sptrs w, wptrs := (wptrs w)(s \<mapsto> y, other \<mapsto> x)\<rparr>)"
    using ran_swap [of "wptrs w" s x other y, OF a b]
    by (intro coherent_tables [OF c]) (auto simp: card_sharers_swap [OF a b])
  then show ?thesis by simp
qed

section \<open>The deletes of a statement\<close>

lemma follows_quiet:
  assumes "coherent w'" and "events w' = events w @ evs"
    and "\<And>a. Destroyed_object a \<notin> set evs"
    and "\<And>c. strong_count w c = 1 \<Longrightarrow> strong_count w' c \<noteq> 0"
  shows "follows w x w'"
  unfolding follows_def last_release_def using assms by blast

lemma follows_same:
  assumes "coherent w"
  shows "follows w x w"
  by (rule follows_quiet [OF assms, of _ "[]"]) simp_all

lemma follows_still:
  assumes "coherent w'" and "events w' = events w" and "strong_count w' = strong_count w"
  shows "follows w x w'"
  using assms by (intro follows_quiet [OF assms(1), where evs = "[]"]) simp_all

lemma follows_release:
  assumes c: "coherent w" and t: "sptrs w s = Some t"
    and ev: "events w1 = events w @ evs"
    and de: "\<And>a. Destroyed_object a \<in> set evs \<longleftrightarrow>
               ptr t = Some a \<and> (\<exists>b. counter t = Some b \<and> strong_count w b = 1)"
    and sc: "\<And>b. strong_count w1 b = (if counter t = Some b then strong_count w b - 1 else strong_count w b)"
    and c': "coherent w'" and ev': "events w' = events w1"
    and mono: "\<And>b. strong_count w1 b \<le> strong_count w' b"
    and g: "\<And>b a. counter t = Some b \<Longrightarrow> ptr t = Some a \<Longrightarrow> strong_count w b = 1 \<Longrightarrow> strong_count w' b = 0"
    and nw: "\<not> weak_op x"
  shows "follows w x w'"
proof -
  have "Destroyed_object a \<in> set evs \<longleftrightarrow> last_release w w' a" for a
  proof
    assume "Destroyed_object a \<in> set evs"
    with de obtain b where b: "ptr t = Some a" "counter t = Some b" "strong_count w b = 1"
      by blast
    then have "t = \<lparr>ptr = Some a, counter = Some b\<rparr>" by (cases t) simp
    with t b g [OF b(2,1,3)] show "last_release w w' a"
      unfolding last_release_def by blast
  next
    assume "last_release w w' a"
    then obtain s' b where b: "sptrs w s' = Some \<lparr>ptr = Some a, counter = Some b\<rparr>"
      "strong_count w b = 1" "strong_count w' b = 0"
      unfolding last_release_def by blast
    from mono [of b] b(3) have z: "strong_count w1 b = 0" by simp
    with sc [of b] b(2) have tc: "counter t = Some b" by (auto split: if_splits)
    from t b(1) have "t \<in> ran (sptrs w)" "\<lparr>ptr = Some a, counter = Some b\<rparr> \<in> ran (sptrs w)"
      by (auto simp: in_ran)
    with agree_ptr [OF coherentD(3) [OF c], of t "\<lparr>ptr = Some a, counter = Some b\<rparr>" b] tc
    have "ptr t = Some a" by simp
    with de tc b(2) show "Destroyed_object a \<in> set evs" by blast
  qed
  with c' ev ev' nw show ?thesis unfolding follows_def by auto
qed

section \<open>Strong counts across a statement\<close>

lemma handle_eta [simp]: "\<lparr>ptr = ptr h, counter = counter h\<rparr> = (h :: handle)"
  by simp

lemma strong_count_fresh: "coherent w \<Longrightarrow> strong_count w (brk w) = 0"
  by (simp add: strong_count_def fresh_counter)

lemma strong_count_inc:
  assumes c: "coherent w" and k: "counters w b = Some k"
  shows "strong_count (w\<lparr>counters := (counters w)(b \<mapsto> k\<lparr>shared_count := shared_count k + 1\<rparr>)\<rparr>) c' =
           (if c' = b then Suc (strong_count w b) else strong_count w c')"
  using small_count(2) [OF countsD(2) [OF c k]] k by (simp add: strong_count_def)

lemma SharedPtr_from_weak_eq:
  "wptrs w other = Some ot \<Longrightarrow>
   SharedPtr_from_weak s other w =
     and_then (WeakPtr_Expired other w)
       (\<lambda>e w1. if e then Throws bad_weak_ptr w1
                else if counter ot \<noteq> None
                     then inc_shared (counter ot) (w1\<lparr>sptrs := (sptrs w1)(s \<mapsto> ot)\<rparr>)
                     else Returns () (w1\<lparr>sptrs := (sptrs w1)(s \<mapsto> ot)\<rparr>))"
  by (simp add: SharedPtr_from_weak_def Let_def cong: if_cong)

lemma SharedPtr_assign_eq:
  assumes "sptrs w s = Some t" and "sptrs w other = Some ot" and "s \<noteq> other"
    and "SharedPtr_DecreaseAndDelete t w = Returns () w1"
  shows "SharedPtr_assign s other w =
           (if counter ot \<noteq> None then inc_shared (counter ot) (w1\<lparr>sptrs := (sptrs w1)(s \<mapsto> ot)\<rparr>)
            else Returns () (w1\<lparr>sptrs := (sptrs w1)(s \<mapsto> ot)\<rparr>))"
  using assms by (simp add: SharedPtr_assign_def and_then_def Let_def cong: if_cong)

lemma WeakPtr_assign_eq:
  assumes "wptrs w s = Some t" and "wptrs w other = Some ot" and "s \<noteq> other"
    and "WeakPtr_DecreaseAndDelete t w = Returns () w1"
  shows "WeakPtr_assign s other w =
           (let w2 = w1\<lparr>wptrs := (wptrs w1)(s \<mapsto> \<lparr>ptr = ptr ot, counter = counter ot\<rparr>)\<rparr>
            in if counter ot \<noteq> None then inc_weak (counter ot) w2 else Returns () w2)"
  using assms by (simp add: WeakPtr_assign_def and_then_def del: handle_eta)

lemma SharedPtr_Reset_eq:
  assumes "sptrs w s = Some t" and "SharedPtr_DecreaseAndDelete t w = Returns () w1"
  shows "SharedPtr_Reset s p w = SharedPtr_raw s p (w1\<lparr>sptrs := (sptrs w1)(s := None)\<rparr>)"
  using assms by (simp add: SharedPtr_Reset_def SharedPtr_raw_def prims)

lemma release_defined:
  assumes "SharedPtr_DecreaseAndDelete t w \<noteq> Undefined" and "counter t = Some b"
  shows "counters w b \<noteq> None"
proof
  assume "counters w b = None"
  with assms(2) have "SharedPtr_DecreaseAndDelete t w = Undefined"
    by (simp add: SharedPtr_DecreaseAndDelete_def)
  with assms(1) show False by simp
qed

lemma and_then_defined: "and_then m f \<noteq> Undefined \<Longrightarrow> m \<noteq> Undefined"
  by (auto simp: and_then_def)

lemma strong_ptr_below:
  assumes c: "coherent w" and h: "h \<in> ran (sptrs w)"
  shows "ptr h \<noteq> Some (brk w)"
proof
  assume a: "ptr h = Some (brk w)"
  from coherent_strong [OF c h] a have "brk w \<in> objects w"
    by (cases "counter h") (auto simp: strong_ok_iff)
  with object_below [OF c] show False by blast
qed

lemma strong_counter_below:
  assumes c: "coherent w" and t: "sptrs w s = Some t" and tc: "counter t = Some b"
  shows "b \<noteq> brk w"
  using coherentD(4) [OF c t] tc by (auto simp: strong_ok_iff)

lemma shared_not_one:
  assumes c: "coherent w" and t: "sptrs w s = Some t" and o: "sptrs w other = Some ot"
    and ne: "s \<noteq> other" and tc: "counter t = Some b" and oc: "counter ot = Some b"
    and pa: "ptr t = Some a"
  shows "strong_count w b \<noteq> 1"
proof -
  from t have tr: "t \<in> ran (sptrs w)" by (auto simp: in_ran)
  from c tr tc pa obtain k where k: "counters w b = Some k"
    "unat (shared_count k) = card (sharers (sptrs w) b)"
    by (rule object_owner)
  with two_sharers [OF t o ne tc oc] show ?thesis by (simp add: strong_count_def)
qed

section \<open>Every statement, one by one\<close>

lemma permittedD:
  assumes "permitted w x"
  shows "declared w x" and "exec x w \<noteq> Undefined"
  using assms by (simp_all add: permitted_def)

lemma inc_shared_defined:
  assumes "inc_shared p w \<noteq> Undefined"
  obtains b k where "p = Some b" and "counters w b = Some k"
  using assms by (auto simp: inc_shared_def split: option.splits)

lemma inc_weak_defined:
  assumes "inc_weak p w \<noteq> Undefined"
  obtains b k where "p = Some b" and "counters w b = Some k"
  using assms by (auto simp: inc_weak_def split: option.splits)

lemma step_S_default:
  assumes c: "coherent w" and p: "permitted w (S_default s)"
  shows "\<exists>w'. (exec (S_default s) w = Returns () w' \<or> exec (S_default s) w = Throws bad_weak_ptr w')
            \<and> follows w (S_default s) w'"
proof -
  from permittedD(1) [OF p] have f: "sptrs w s = None" by simp
  let ?w = "w\<lparr>sptrs := (sptrs w)(s \<mapsto> nullptr)\<rparr>"
  have "exec (S_default s) w = Returns () ?w" by (simp add: SharedPtr_default_def)
  moreover have "follows w (S_default s) ?w"
    by (rule follows_quiet [OF coherent_put_null_strong [OF c f], where evs = "[]"]) simp_all
  ultimately show ?thesis by blast
qed

lemma raw_step:
  assumes c: "coherent w" and f: "sptrs w s = None"
    and p: "p = None \<or> (\<exists>a. p = Some a \<and> a \<in> objects w \<and> (\<forall>h \<in> ran (sptrs w). ptr h \<noteq> Some a))"
  obtains w' where "SharedPtr_raw s p w = Returns () w'" and "coherent w'"
    and "events w' = events w" and "\<And>c. strong_count w c = 1 \<Longrightarrow> strong_count w' c = 1"
    and "\<And>c. strong_count w c \<le> strong_count w' c"
    and "\<And>c. c \<noteq> brk w \<Longrightarrow> strong_count w' c = strong_count w c"
proof -
  let ?w = "w\<lparr>counters := (counters w)(brk w \<mapsto> \<lparr>shared_count = (if p \<noteq> None then 1 else 0), weak_count = 0\<rparr>),
              brk := Suc (brk w),
              sptrs := (sptrs w)(s \<mapsto> \<lparr>ptr = p, counter = Some (brk w)\<rparr>)\<rparr>"
  have "SharedPtr_raw s p w = Returns () ?w" by (simp add: SharedPtr_raw_def prims)
  moreover have "coherent ?w" by (rule coherent_raw [OF c f p])
  moreover have "strong_count w c' = 1 \<Longrightarrow> strong_count ?w c' = 1" for c'
    using strong_count_fresh [OF c] by (auto simp: strong_count_def)
  moreover have "strong_count w c' \<le> strong_count ?w c'" for c'
    using strong_count_fresh [OF c] by (auto simp: strong_count_def)
  moreover have "c' \<noteq> brk w \<Longrightarrow> strong_count ?w c' = strong_count w c'" for c'
    by (auto simp: strong_count_def)
  ultimately show ?thesis by (intro that [of ?w]) simp_all
qed

lemma step_S_null:
  assumes c: "coherent w" and p: "permitted w (S_null s)"
  shows "\<exists>w'. (exec (S_null s) w = Returns () w' \<or> exec (S_null s) w = Throws bad_weak_ptr w')
            \<and> follows w (S_null s) w'"
proof -
  from permittedD(1) [OF p] have f: "sptrs w s = None" by simp
  have pn: "None = None \<or> (\<exists>a. None = Some a \<and> a \<in> objects w \<and> (\<forall>h \<in> ran (sptrs w). ptr h \<noteq> Some a))"
    by simp
  from c f pn show ?thesis
  proof (cases rule: raw_step)
    case (1 w')
    have "follows w (S_null s) w'"
      using 1(4) by (intro follows_quiet [OF 1(2), where evs = "[]"]) (simp_all add: 1(3))
    with 1(1) show ?thesis by auto
  qed
qed

lemma step_S_make:
  assumes c: "coherent w" and p: "permitted w (S_make s)"
  shows "\<exists>w'. (exec (S_make s) w = Returns () w' \<or> exec (S_make s) w = Throws bad_weak_ptr w')
            \<and> follows w (S_make s) w'"
proof -
  from permittedD(1) [OF p] have f: "sptrs w s = None" by simp
  let ?w0 = "w\<lparr>objects := insert (brk w) (objects w), brk := Suc (brk w)\<rparr>"
  have c0: "coherent ?w0" by (rule coherent_new_T [OF c])
  have f0: "sptrs ?w0 s = None" using f by simp
  have p0: "Some (brk w) = None \<or> (\<exists>a. Some (brk w) = Some a \<and> a \<in> objects ?w0 \<and> (\<forall>h \<in> ran (sptrs ?w0). ptr h \<noteq> Some a))"
    using strong_ptr_below [OF c] by simp
  from c0 f0 p0 show ?thesis
  proof (cases rule: raw_step)
    case (1 w')
    have e: "exec (S_make s) w = Returns () w'"
      using 1(1) by (simp add: MakeShared_def new_T_def and_then_def)
    have "follows w (S_make s) w'"
      using 1(3,4) by (intro follows_quiet [OF 1(2), where evs = "[]"]) simp_all
    with e show ?thesis by auto
  qed
qed

lemma acquire_step:
  assumes c: "coherent w" and f: "sptrs w s = None"
    and h: "h \<in> ran (sptrs w) \<or> (h \<in> ran (wptrs w) \<and> shared_count k \<noteq> 0)"
    and hc: "counter h = Some b" and k: "counters w b = Some k"
  obtains w' where "inc_shared (counter h) (w\<lparr>sptrs := (sptrs w)(s \<mapsto> h)\<rparr>) = Returns () w'"
    and "coherent w'" and "events w' = events w"
    and "\<And>c. strong_count w c \<le> strong_count w' c"
    and "\<And>c. c \<noteq> b \<Longrightarrow> strong_count w' c = strong_count w c"
proof -
  let ?w = "w\<lparr>sptrs := (sptrs w)(s \<mapsto> h), counters := (counters w)(b \<mapsto> k\<lparr>shared_count := shared_count k + 1\<rparr>)\<rparr>"
  have "inc_shared (counter h) (w\<lparr>sptrs := (sptrs w)(s \<mapsto> h)\<rparr>) = Returns () ?w"
    using hc k by (simp add: inc_shared_def)
  moreover have "coherent ?w" by (rule coherent_acquire_strong [OF c f h hc k])
  moreover have "strong_count ?w c' = (if c' = b then Suc (strong_count w b) else strong_count w c')" for c'
    using strong_count_inc [OF c k, of c'] by (simp add: strong_count_def)
  ultimately show ?thesis by (intro that [of ?w]) simp_all
qed

lemma step_S_copy:
  assumes c: "coherent w" and p: "permitted w (S_copy s other)"
  shows "\<exists>w'. (exec (S_copy s other) w = Returns () w' \<or> exec (S_copy s other) w = Throws bad_weak_ptr w')
            \<and> follows w (S_copy s other) w'"
proof -
  from permittedD(1) [OF p] obtain ot where f: "sptrs w s = None" and o: "sptrs w other = Some ot"
    by auto
  from permittedD(2) [OF p] o
  have "inc_shared (counter ot) (w\<lparr>sptrs := (sptrs w)(s \<mapsto> ot)\<rparr>) \<noteq> Undefined"
    by (simp add: SharedPtr_copy_def)
  then obtain b k where oc: "counter ot = Some b" and k: "counters w b = Some k"
    by (rule inc_shared_defined) simp
  from o have "ot \<in> ran (sptrs w)" by (rule ranI)
  then have r: "ot \<in> ran (sptrs w) \<or> (ot \<in> ran (wptrs w) \<and> shared_count k \<noteq> 0)" ..
  from c f r oc k show ?thesis
  proof (cases rule: acquire_step)
    case (1 w')
    have e: "exec (S_copy s other) w = Returns () w'"
      using 1(1) o by (simp add: SharedPtr_copy_def)
    have "strong_count w c' = 1 \<Longrightarrow> strong_count w' c' \<noteq> 0" for c'
      using 1(4) [of c'] by simp
    then have "follows w (S_copy s other) w'"
      by (intro follows_quiet [OF 1(2), where evs = "[]"]) (simp_all add: 1(3))
    with e show ?thesis by auto
  qed
qed

lemma step_S_move:
  assumes c: "coherent w" and p: "permitted w (S_move s other)"
  shows "\<exists>w'. (exec (S_move s other) w = Returns () w' \<or> exec (S_move s other) w = Throws bad_weak_ptr w')
            \<and> follows w (S_move s other) w'"
proof -
  from permittedD(1) [OF p] obtain ot where f: "sptrs w s = None" and o: "sptrs w other = Some ot" by auto
  let ?w = "w\<lparr>sptrs := (sptrs w)(s \<mapsto> ot, other \<mapsto> nullptr)\<rparr>"
  have "exec (S_move s other) w = Returns () ?w" using o by (simp add: SharedPtr_move_def)
  moreover have "follows w (S_move s other) ?w"
    by (rule follows_quiet [OF coherent_move_strong [OF c f o], where evs = "[]"]) simp_all
  ultimately show ?thesis by blast
qed

lemma from_weak_step:
  assumes c: "coherent w" and f: "sptrs w s = None" and o: "wptrs w other = Some ot"
  obtains "SharedPtr_from_weak s other w = Throws bad_weak_ptr w"
    and "WeakPtr_Expired other w = Returns True w"
  | w' where "SharedPtr_from_weak s other w = Returns () w'"
    and "WeakPtr_Expired other w = Returns False w"
    and "coherent w'" and "events w' = events w"
    and "\<And>c. strong_count w c \<le> strong_count w' c"
proof (cases "counter ot")
  case None
  with o have "SharedPtr_from_weak s other w = Throws bad_weak_ptr w"
    "WeakPtr_Expired other w = Returns True w"
    by (simp_all add: SharedPtr_from_weak_def WeakPtr_Expired_def and_then_def)
  then show ?thesis by (rule that(1))
next
  case (Some b)
  from weak_live [OF c o Some] obtain k where k: "counters w b = Some k" by blast
  show ?thesis
  proof (cases "shared_count k = 0")
    case True
    with o Some k have "SharedPtr_from_weak s other w = Throws bad_weak_ptr w"
      "WeakPtr_Expired other w = Returns True w"
      by (simp_all add: SharedPtr_from_weak_def WeakPtr_Expired_def and_then_def)
    then show ?thesis by (rule that(1))
  next
    case False
    from o have "ot \<in> ran (wptrs w)" by (rule ranI)
    with False have r: "ot \<in> ran (sptrs w) \<or> (ot \<in> ran (wptrs w) \<and> shared_count k \<noteq> 0)" by blast
    from c f r Some k show ?thesis
    proof (cases rule: acquire_step)
      case (1 w')
      have "SharedPtr_from_weak s other w = Returns () w'"
        "WeakPtr_Expired other w = Returns False w"
        using 1(1) o Some k False
        by (simp_all add: SharedPtr_from_weak_eq [OF o] WeakPtr_Expired_def and_then_def)
      then show ?thesis using 1(2,3,4) by (rule that(2))
    qed
  qed
qed

lemma step_S_from_weak:
  assumes c: "coherent w" and p: "permitted w (S_from_weak s other)"
  shows "\<exists>w'. (exec (S_from_weak s other) w = Returns () w' \<or> exec (S_from_weak s other) w = Throws bad_weak_ptr w')
            \<and> follows w (S_from_weak s other) w'"
proof -
  from permittedD(1) [OF p] obtain ot where f: "sptrs w s = None" and o: "wptrs w other = Some ot" by auto
  from c f o show ?thesis
  proof (cases rule: from_weak_step)
    case 1
    with follows_same [OF c] show ?thesis by auto
  next
    case (2 w')
    have "strong_count w c' = 1 \<Longrightarrow> strong_count w' c' \<noteq> 0" for c'
      using 2(5) [of c'] by simp
    then have "follows w (S_from_weak s other) w'"
      by (intro follows_quiet [OF 2(3), where evs = "[]"]) (simp_all add: 2(4))
    with 2(1) show ?thesis by auto
  qed
qed

lemma step_W_lock:
  assumes c: "coherent w" and p: "permitted w (W_lock s ret)"
  shows "\<exists>w'. (exec (W_lock s ret) w = Returns () w' \<or> exec (W_lock s ret) w = Throws bad_weak_ptr w')
            \<and> follows w (W_lock s ret) w'"
proof -
  from permittedD(1) [OF p] obtain ot where f: "sptrs w ret = None" and o: "wptrs w s = Some ot" by auto
  from c f o show ?thesis
  proof (cases rule: from_weak_step)
    case 1
    let ?w = "w\<lparr>counters := (counters w)(brk w \<mapsto> \<lparr>shared_count = 0, weak_count = 0\<rparr>),
              brk := Suc (brk w),
              sptrs := (sptrs w)(ret \<mapsto> \<lparr>ptr = None, counter = Some (brk w)\<rparr>)\<rparr>"
    have e: "exec (W_lock s ret) w = Returns () ?w"
      using 1(2) by (simp add: WeakPtr_Lock_def and_then_def SharedPtr_raw_def new_Counter_def)
    have ch: "coherent ?w" using coherent_raw [OF c f, of None] by simp
    have "strong_count w c' = 1 \<Longrightarrow> strong_count ?w c' \<noteq> 0" for c'
      using strong_count_fresh [OF c] by (auto simp: strong_count_def)
    then have "follows w (W_lock s ret) ?w"
      by (intro follows_quiet [OF ch, where evs = "[]"]) simp_all
    with e show ?thesis by blast
  next
    case (2 w')
    have e: "exec (W_lock s ret) w = Returns () w'"
      using 2(1,2) by (simp add: WeakPtr_Lock_def and_then_def)
    have "strong_count w c' = 1 \<Longrightarrow> strong_count w' c' \<noteq> 0" for c'
      using 2(5) [of c'] by simp
    then have "follows w (W_lock s ret) w'"
      by (intro follows_quiet [OF 2(3), where evs = "[]"]) (simp_all add: 2(4))
    with e show ?thesis by auto
  qed
qed

lemma weak_share_step:
  assumes c: "coherent w" and f: "wptrs w s = None"
    and src: "ot \<in> ran (sptrs w) \<or> ot \<in> ran (wptrs w)"
    and live: "\<forall>b. counter ot = Some b \<longrightarrow> counters w b \<noteq> None"
  obtains w' where
    "(let w1 = w\<lparr>wptrs := (wptrs w)(s \<mapsto> \<lparr>ptr = ptr ot, counter = counter ot\<rparr>)\<rparr>
      in if counter ot \<noteq> None then inc_weak (counter ot) w1 else Returns () w1) = Returns () w'"
    and "coherent w'" and "events w' = events w" and "strong_count w' = strong_count w"
proof (cases "counter ot")
  case None
  from src have "ot = nullptr"
  proof
    assume "ot \<in> ran (sptrs w)"
    then show ?thesis using strong_null [OF c _ None] by (auto simp: in_ran)
  next
    assume "ot \<in> ran (wptrs w)"
    then show ?thesis using weak_null [OF c _ None] by (auto simp: in_ran)
  qed
  then have "(let w1 = w\<lparr>wptrs := (wptrs w)(s \<mapsto> \<lparr>ptr = ptr ot, counter = counter ot\<rparr>)\<rparr>
      in if counter ot \<noteq> None then inc_weak (counter ot) w1 else Returns () w1)
      = Returns () (w\<lparr>wptrs := (wptrs w)(s \<mapsto> nullptr)\<rparr>)"
    by (simp add: nullptr_def Let_def)
  then show ?thesis
    using coherent_put_null_weak [OF c f]
    by (intro that [of "w\<lparr>wptrs := (wptrs w)(s \<mapsto> nullptr)\<rparr>"]) simp_all
next
  case (Some b)
  from live Some obtain k where k: "counters w b = Some k" by blast
  let ?w = "w\<lparr>wptrs := (wptrs w)(s \<mapsto> ot), counters := (counters w)(b \<mapsto> k\<lparr>weak_count := weak_count k + 1\<rparr>)\<rparr>"
  have "inc_weak (counter ot) (w\<lparr>wptrs := (wptrs w)(s \<mapsto> ot)\<rparr>) = Returns () ?w"
    using Some k by (simp add: inc_weak_def)
  then have e: "(let w1 = w\<lparr>wptrs := (wptrs w)(s \<mapsto> \<lparr>ptr = ptr ot, counter = counter ot\<rparr>)\<rparr>
      in if counter ot \<noteq> None then inc_weak (counter ot) w1 else Returns () w1) = Returns () ?w"
    unfolding Let_def handle_eta using Some by simp
  have ch: "coherent ?w" by (rule coherent_acquire_weak [OF c f src Some k])
  have sc: "strong_count ?w = strong_count w"
    using k by (auto simp: strong_count_def fun_eq_iff)
  show ?thesis using e ch sc by (intro that [of ?w]) simp_all
qed

lemma step_W_default:
  assumes c: "coherent w" and p: "permitted w (W_default s)"
  shows "\<exists>w'. (exec (W_default s) w = Returns () w' \<or> exec (W_default s) w = Throws bad_weak_ptr w')
            \<and> follows w (W_default s) w'"
proof -
  from permittedD(1) [OF p] have f: "wptrs w s = None" by simp
  let ?w = "w\<lparr>wptrs := (wptrs w)(s \<mapsto> nullptr)\<rparr>"
  have "exec (W_default s) w = Returns () ?w" by (simp add: WeakPtr_default_def)
  moreover have "follows w (W_default s) ?w"
    by (rule follows_still [OF coherent_put_null_weak [OF c f]]) simp_all
  ultimately show ?thesis by blast
qed

lemma step_W_copy:
  assumes c: "coherent w" and p: "permitted w (W_copy s other)"
  shows "\<exists>w'. (exec (W_copy s other) w = Returns () w' \<or> exec (W_copy s other) w = Throws bad_weak_ptr w')
            \<and> follows w (W_copy s other) w'"
proof -
  from permittedD(1) [OF p] obtain ot where f: "wptrs w s = None" and o: "wptrs w other = Some ot" by auto
  from o have "ot \<in> ran (wptrs w)" by (rule ranI)
  then have src: "ot \<in> ran (sptrs w) \<or> ot \<in> ran (wptrs w)" ..
  have live: "\<forall>b. counter ot = Some b \<longrightarrow> counters w b \<noteq> None"
    using weak_live [OF c o] by blast
  from c f src live show ?thesis
  proof (cases rule: weak_share_step)
    case (1 w')
    have "exec (W_copy s other) w = Returns () w'"
      using o 1(1) by (simp add: WeakPtr_copy_def del: handle_eta)
    with follows_still [OF 1(2,3,4)] show ?thesis by blast
  qed
qed

lemma step_W_from_shared:
  assumes c: "coherent w" and p: "permitted w (W_from_shared s other)"
  shows "\<exists>w'. (exec (W_from_shared s other) w = Returns () w' \<or> exec (W_from_shared s other) w = Throws bad_weak_ptr w')
            \<and> follows w (W_from_shared s other) w'"
proof -
  from permittedD(1) [OF p] obtain ot where f: "wptrs w s = None" and o: "sptrs w other = Some ot" by auto
  from o have "ot \<in> ran (sptrs w)" by (rule ranI)
  then have src: "ot \<in> ran (sptrs w) \<or> ot \<in> ran (wptrs w)" ..
  have live: "\<forall>b. counter ot = Some b \<longrightarrow> counters w b \<noteq> None"
  proof (intro allI impI notI)
    fix b assume "counter ot = Some b" and "counters w b = None"
    with o have "exec (W_from_shared s other) w = Undefined"
      by (simp add: WeakPtr_from_shared_def Let_def inc_weak_def)
    with permittedD(2) [OF p] show False by simp
  qed
  from c f src live show ?thesis
  proof (cases rule: weak_share_step)
    case (1 w')
    have "exec (W_from_shared s other) w = Returns () w'"
      using o 1(1) by (simp add: WeakPtr_from_shared_def del: handle_eta)
    with follows_still [OF 1(2,3,4)] show ?thesis by blast
  qed
qed

lemma step_W_move:
  assumes c: "coherent w" and p: "permitted w (W_move s other)"
  shows "\<exists>w'. (exec (W_move s other) w = Returns () w' \<or> exec (W_move s other) w = Throws bad_weak_ptr w')
            \<and> follows w (W_move s other) w'"
proof -
  from permittedD(1) [OF p] obtain ot where f: "wptrs w s = None" and o: "wptrs w other = Some ot" by auto
  let ?w = "w\<lparr>wptrs := (wptrs w)(s \<mapsto> ot, other \<mapsto> nullptr)\<rparr>"
  have "exec (W_move s other) w = Returns () ?w" using o by (simp add: WeakPtr_move_def)
  moreover have "follows w (W_move s other) ?w"
    by (rule follows_still [OF coherent_move_weak [OF c f o]]) simp_all
  ultimately show ?thesis by blast
qed

lemma step_S_swap:
  assumes c: "coherent w" and p: "permitted w (S_swap s other)"
  shows "\<exists>w'. (exec (S_swap s other) w = Returns () w' \<or> exec (S_swap s other) w = Throws bad_weak_ptr w')
            \<and> follows w (S_swap s other) w'"
proof -
  from permittedD(1) [OF p] obtain t ot where t: "sptrs w s = Some t" and o: "sptrs w other = Some ot" by auto
  let ?w = "w\<lparr>sptrs := (sptrs w)(s \<mapsto> ot, other \<mapsto> t)\<rparr>"
  have "exec (S_swap s other) w = Returns () ?w" using t o by (simp add: SharedPtr_Swap_def)
  moreover have "follows w (S_swap s other) ?w"
    by (rule follows_still [OF coherent_swap_strong [OF c t o]]) simp_all
  ultimately show ?thesis by blast
qed

lemma step_W_swap:
  assumes c: "coherent w" and p: "permitted w (W_swap s other)"
  shows "\<exists>w'. (exec (W_swap s other) w = Returns () w' \<or> exec (W_swap s other) w = Throws bad_weak_ptr w')
            \<and> follows w (W_swap s other) w'"
proof -
  from permittedD(1) [OF p] obtain t ot where t: "wptrs w s = Some t" and o: "wptrs w other = Some ot" by auto
  let ?w = "w\<lparr>wptrs := (wptrs w)(s \<mapsto> ot, other \<mapsto> t)\<rparr>"
  have "exec (W_swap s other) w = Returns () ?w" using t o by (simp add: WeakPtr_Swap_def)
  moreover have "follows w (W_swap s other) ?w"
    by (rule follows_still [OF coherent_swap_weak [OF c t o]]) simp_all
  ultimately show ?thesis by blast
qed

lemma step_W_reset:
  assumes c: "coherent w" and p: "permitted w (W_reset s)"
  shows "\<exists>w'. (exec (W_reset s) w = Returns () w' \<or> exec (W_reset s) w = Throws bad_weak_ptr w')
            \<and> follows w (W_reset s) w'"
proof -
  from permittedD(1) [OF p] obtain t where t: "wptrs w s = Some t" by auto
  show ?thesis
  proof (cases "counter t")
    case None
    with t have "exec (W_reset s) w = Returns () w" by (simp add: WeakPtr_Reset_def)
    with follows_same [OF c] show ?thesis by blast
  next
    case (Some b)
    from weak_live [OF c t Some] obtain k where k: "counters w b = Some k" by blast
    let ?w = "w\<lparr>counters := (counters w)(b \<mapsto> k\<lparr>weak_count := weak_count k - 1\<rparr>),
                wptrs := (wptrs w)(s \<mapsto> nullptr)\<rparr>"
    have "exec (W_reset s) w = Returns () ?w" using t Some k by (simp add: WeakPtr_Reset_def)
    moreover have "strong_count ?w = strong_count w"
      using k by (auto simp: strong_count_def fun_eq_iff)
    then have "follows w (W_reset s) ?w"
      by (intro follows_still [OF coherent_reset_weak [OF c t Some k]]) simp_all
    ultimately show ?thesis by blast
  qed
qed

lemma step_W_dtor:
  assumes c: "coherent w" and p: "permitted w (W_dtor s)"
  shows "\<exists>w'. (exec (W_dtor s) w = Returns () w' \<or> exec (W_dtor s) w = Throws bad_weak_ptr w')
            \<and> follows w (W_dtor s) w'"
proof -
  from permittedD(1) [OF p] obtain t where t: "wptrs w s = Some t" by auto
  from c t show ?thesis
  proof (cases rule: release_weak)
    case (1 w1 evs)
    let ?w = "w1\<lparr>wptrs := (wptrs w)(s := None)\<rparr>"
    have "exec (W_dtor s) w = Returns () ?w"
      using t 1(1,3) by (simp add: WeakPtr_dtor_def and_then_def)
    moreover have "follows w (W_dtor s) ?w"
      using 1(8,9) by (intro follows_quiet [OF 1(6), where evs = evs]) (simp_all add: 1(7))
    ultimately show ?thesis by blast
  qed
qed

lemma release_live:
  assumes "SharedPtr_DecreaseAndDelete t w \<noteq> Undefined"
  shows "\<forall>b. counter t = Some b \<longrightarrow> counters w b \<noteq> None"
  using release_defined [OF assms] by blast

lemma step_S_dtor:
  assumes c: "coherent w" and p: "permitted w (S_dtor s)"
  shows "\<exists>w'. (exec (S_dtor s) w = Returns () w' \<or> exec (S_dtor s) w = Throws bad_weak_ptr w')
            \<and> follows w (S_dtor s) w'"
proof -
  from permittedD(1) [OF p] obtain t where t: "sptrs w s = Some t" by auto
  from permittedD(2) [OF p] t have "SharedPtr_DecreaseAndDelete t w \<noteq> Undefined"
    by (auto simp: SharedPtr_dtor_def dest: and_then_defined)
  then have live: "\<forall>b. counter t = Some b \<longrightarrow> counters w b \<noteq> None" by (rule release_live)
  from c t live show ?thesis
  proof (cases rule: release_strong)
    case (1 w1 evs)
    let ?w = "w1\<lparr>sptrs := (sptrs w)(s := None)\<rparr>"
    have "exec (S_dtor s) w = Returns () ?w"
      using t 1(1,2) by (simp add: SharedPtr_dtor_def and_then_def)
    moreover have "follows w (S_dtor s) ?w"
      using 1(8) by (intro follows_release [OF c t 1(6) 1(7) 1(8) 1(5)]) simp_all
    ultimately show ?thesis by blast
  qed
qed

lemma step_S_move_assign:
  assumes c: "coherent w" and p: "permitted w (S_move_assign s other)"
  shows "\<exists>w'. (exec (S_move_assign s other) w = Returns () w' \<or> exec (S_move_assign s other) w = Throws bad_weak_ptr w')
            \<and> follows w (S_move_assign s other) w'"
proof -
  from permittedD(1) [OF p] obtain t ot where t: "sptrs w s = Some t" and o: "sptrs w other = Some ot" by auto
  show ?thesis
  proof (cases "s = other")
    case True
    with t have "exec (S_move_assign s other) w = Returns () w" by (simp add: SharedPtr_move_assign_def)
    with follows_same [OF c] show ?thesis by blast
  next
    case ne: False
    from permittedD(2) [OF p] t o ne have "SharedPtr_DecreaseAndDelete t w \<noteq> Undefined"
      by (auto simp: SharedPtr_move_assign_def dest: and_then_defined)
    then have live: "\<forall>b. counter t = Some b \<longrightarrow> counters w b \<noteq> None" by (rule release_live)
    from c t live show ?thesis
    proof (cases rule: release_strong)
      case (1 w1 evs)
      let ?v = "w1\<lparr>sptrs := (sptrs w)(s := None)\<rparr>"
      note cv = 1(5)
      have fv: "sptrs ?v s = None" by simp
      have ov: "sptrs ?v other = Some ot" using o ne by simp
      let ?w = "w1\<lparr>sptrs := (sptrs w1)(s \<mapsto> ot, other \<mapsto> nullptr)\<rparr>"
      have e: "exec (S_move_assign s other) w = Returns () ?w"
        using t o ne 1(1) by (simp add: SharedPtr_move_assign_def and_then_def)
      have ch: "coherent ?w"
        by (rule coherent_cong [OF coherent_move_strong [OF cv fv ov]]) (simp_all add: 1(2))
      have "follows w (S_move_assign s other) ?w"
        using 1(8) by (intro follows_release [OF c t 1(6) 1(7) 1(8) ch]) simp_all
      with e show ?thesis by blast
    qed
  qed
qed

lemma step_W_move_assign:
  assumes c: "coherent w" and p: "permitted w (W_move_assign s other)"
  shows "\<exists>w'. (exec (W_move_assign s other) w = Returns () w' \<or> exec (W_move_assign s other) w = Throws bad_weak_ptr w')
            \<and> follows w (W_move_assign s other) w'"
proof -
  from permittedD(1) [OF p] obtain t ot where t: "wptrs w s = Some t" and o: "wptrs w other = Some ot" by auto
  show ?thesis
  proof (cases "s = other")
    case True
    with t have "exec (W_move_assign s other) w = Returns () w" by (simp add: WeakPtr_move_assign_def)
    with follows_same [OF c] show ?thesis by blast
  next
    case ne: False
    from c t show ?thesis
    proof (cases rule: release_weak)
      case (1 w1 evs)
      let ?v = "w1\<lparr>wptrs := (wptrs w)(s := None)\<rparr>"
      note cv = 1(6)
      have fv: "wptrs ?v s = None" by simp
      have ov: "wptrs ?v other = Some ot" using o ne by simp
      let ?w = "w1\<lparr>wptrs := (wptrs w1)(s \<mapsto> ot, other \<mapsto> nullptr)\<rparr>"
      have e: "exec (W_move_assign s other) w = Returns () ?w"
        using t o ne 1(1) by (simp add: WeakPtr_move_assign_def and_then_def)
      have ch: "coherent ?w"
        by (rule coherent_cong [OF coherent_move_weak [OF cv fv ov]]) (simp_all add: 1(3))
      have "follows w (W_move_assign s other) ?w"
        using 1(8,9) by (intro follows_quiet [OF ch, where evs = evs]) (simp_all add: 1(7))
      with e show ?thesis by blast
    qed
  qed
qed

lemma step_W_assign:
  assumes c: "coherent w" and p: "permitted w (W_assign s other)"
  shows "\<exists>w'. (exec (W_assign s other) w = Returns () w' \<or> exec (W_assign s other) w = Throws bad_weak_ptr w')
            \<and> follows w (W_assign s other) w'"
proof -
  from permittedD(1) [OF p] obtain t ot where t: "wptrs w s = Some t" and o: "wptrs w other = Some ot" by auto
  show ?thesis
  proof (cases "s = other")
    case True
    with t have "exec (W_assign s other) w = Returns () w" by (simp add: WeakPtr_assign_def)
    with follows_same [OF c] show ?thesis by blast
  next
    case ne: False
    from c t show ?thesis
    proof (cases rule: release_weak)
      case (1 w1 evs)
      let ?v = "w1\<lparr>wptrs := (wptrs w)(s := None)\<rparr>"
      note cv = 1(6)
      note rel = 1
      have fv: "wptrs ?v s = None" by simp
      have ov: "wptrs ?v other = Some ot" using o ne by simp
      then have "ot \<in> ran (wptrs ?v)" by (rule ranI)
      then have src: "ot \<in> ran (sptrs ?v) \<or> ot \<in> ran (wptrs ?v)" ..
      have live: "\<forall>b. counter ot = Some b \<longrightarrow> counters ?v b \<noteq> None"
        using weak_live [OF cv ov] by blast
      from cv fv src live show ?thesis
      proof (cases rule: weak_share_step)
        case (1 w')
        have "?v\<lparr>wptrs := (wptrs ?v)(s \<mapsto> \<lparr>ptr = ptr ot, counter = counter ot\<rparr>)\<rparr>
              = w1\<lparr>wptrs := (wptrs w1)(s \<mapsto> \<lparr>ptr = ptr ot, counter = counter ot\<rparr>)\<rparr>"
          by (simp add: rel(3))
        with 1(1) WeakPtr_assign_eq [OF t o ne rel(1)]
        have e: "exec (W_assign s other) w = Returns () w'" by (simp del: handle_eta)
        have "follows w (W_assign s other) w'"
          using rel(8,9) 1(3,4) by (intro follows_quiet [OF 1(2), where evs = evs]) (simp_all add: rel(7))
        with e show ?thesis by blast
      qed
    qed
  qed
qed

lemma step_S_assign:
  assumes c: "coherent w" and p: "permitted w (S_assign s other)"
  shows "\<exists>w'. (exec (S_assign s other) w = Returns () w' \<or> exec (S_assign s other) w = Throws bad_weak_ptr w')
            \<and> follows w (S_assign s other) w'"
proof -
  from permittedD(1) [OF p] obtain t ot where t: "sptrs w s = Some t" and o: "sptrs w other = Some ot" by auto
  show ?thesis
  proof (cases "s = other")
    case True
    with t have "exec (S_assign s other) w = Returns () w" by (simp add: SharedPtr_assign_def)
    with follows_same [OF c] show ?thesis by blast
  next
    case ne: False
    from permittedD(2) [OF p] t o ne have "SharedPtr_DecreaseAndDelete t w \<noteq> Undefined"
      by (auto simp: SharedPtr_assign_def dest: and_then_defined)
    then have live: "\<forall>b. counter t = Some b \<longrightarrow> counters w b \<noteq> None" by (rule release_live)
    from c t live show ?thesis
    proof (cases rule: release_strong)
      case (1 w1 evs)
      let ?v = "w1\<lparr>sptrs := (sptrs w)(s := None)\<rparr>"
      note cv = 1(5)
      have fv: "sptrs ?v s = None" by simp
      have ov: "sptrs ?v other = Some ot" using o ne by simp
      note eq = SharedPtr_assign_eq [OF t o ne 1(1)]
      show ?thesis
      proof (cases "counter ot")
        case None
        from strong_null [OF c o None] have n: "ot = nullptr" .
        let ?w = "w1\<lparr>sptrs := (sptrs w1)(s \<mapsto> ot)\<rparr>"
        have e: "exec (S_assign s other) w = Returns () ?w" using eq None by simp
        have ch: "coherent ?w"
          by (rule coherent_cong [OF coherent_put_null_strong [OF cv fv]]) (simp_all add: n 1(2))
        have "follows w (S_assign s other) ?w"
          using 1(8) by (intro follows_release [OF c t 1(6) 1(7) 1(8) ch]) simp_all
        with e show ?thesis by blast
      next
        case (Some b)
        from permittedD(2) [OF p] eq Some
        have "inc_shared (counter ot) (w1\<lparr>sptrs := (sptrs w1)(s \<mapsto> ot)\<rparr>) \<noteq> Undefined" by simp
        then have "\<exists>k'. counters w1 b = Some k'"
          using Some by (auto elim: inc_shared_defined)
        then obtain k' where "counters w1 b = Some k'" ..
        then have k': "counters ?v b = Some k'" by simp
        from ov have "ot \<in> ran (sptrs ?v)" by (rule ranI)
        then have r: "ot \<in> ran (sptrs ?v) \<or> (ot \<in> ran (wptrs ?v) \<and> shared_count k' \<noteq> 0)" ..
        from cv fv r Some k' show ?thesis
        proof (cases rule: acquire_step)
          case (1 w')
          note a = 1
          note rel = \<open>SharedPtr_DecreaseAndDelete t w = Returns () w1\<close>
            \<open>sptrs w1 = sptrs w\<close> \<open>events w1 = events w @ evs\<close>
            \<open>\<And>a. Destroyed_object a \<in> set evs \<longleftrightarrow>
               ptr t = Some a \<and> (\<exists>b. counter t = Some b \<and> strong_count w b = 1)\<close>
            \<open>\<And>b. strong_count w1 b = (if counter t = Some b then strong_count w b - 1 else strong_count w b)\<close>
          have "?v\<lparr>sptrs := (sptrs ?v)(s \<mapsto> ot)\<rparr> = w1\<lparr>sptrs := (sptrs w1)(s \<mapsto> ot)\<rparr>"
            by (simp add: rel(2))
          with a(1) eq Some have e: "exec (S_assign s other) w = Returns () w'" by simp
          have mono: "strong_count w1 b' \<le> strong_count w' b'" for b'
            using a(4) [of b'] by simp
          have g: "strong_count w' bt = 0"
            if "counter t = Some bt" "ptr t = Some x" "strong_count w bt = 1" for bt x
          proof -
            have "bt \<noteq> b"
            proof
              assume "bt = b"
              with that(1) have tc: "counter t = Some b" by simp
              from shared_not_one [OF c t o ne tc Some that(2)] that(3) \<open>bt = b\<close> show False by simp
            qed
            from a(5) [OF this] rel(5) [of bt] that show ?thesis by simp
          qed
          have "follows w (S_assign s other) w'"
            using mono g a(3) by (intro follows_release [OF c t rel(3) rel(4) rel(5) a(2)]) simp_all
          with e show ?thesis by blast
        qed
      qed
    qed
  qed
qed

lemma Reset_live:
  assumes "SharedPtr_Reset s p w \<noteq> Undefined" and "sptrs w s = Some t"
  shows "\<forall>b. counter t = Some b \<longrightarrow> counters w b \<noteq> None"
proof -
  from assms have "SharedPtr_DecreaseAndDelete t w \<noteq> Undefined"
    by (auto simp: SharedPtr_Reset_def dest: and_then_defined)
  then show ?thesis by (rule release_live)
qed

lemma step_S_reset:
  assumes c: "coherent w" and p: "permitted w (S_reset s)"
  shows "\<exists>w'. (exec (S_reset s) w = Returns () w' \<or> exec (S_reset s) w = Throws bad_weak_ptr w')
            \<and> follows w (S_reset s) w'"
proof -
  from permittedD(1) [OF p] obtain t where t: "sptrs w s = Some t" by auto
  from permittedD(2) [OF p] have "SharedPtr_Reset s None w \<noteq> Undefined" by simp
  then have live: "\<forall>b. counter t = Some b \<longrightarrow> counters w b \<noteq> None"
    using t by (rule Reset_live)
  from c t live show ?thesis
  proof (cases rule: release_strong)
    case (1 w1 evs)
    note rel = 1
    let ?v = "w1\<lparr>sptrs := (sptrs w)(s := None)\<rparr>"
    note cv = rel(5)
    have fv: "sptrs ?v s = None" by simp
    have pv: "None = None \<or> (\<exists>a. None = Some a \<and> a \<in> objects ?v \<and> (\<forall>h \<in> ran (sptrs ?v). ptr h \<noteq> Some a))"
      by simp
    from cv fv pv show ?thesis
    proof (cases rule: raw_step)
      case (1 w')
      have "?v = w1\<lparr>sptrs := (sptrs w1)(s := None)\<rparr>" by (simp add: rel(2))
      with 1(1) SharedPtr_Reset_eq [OF t rel(1), of None]
      have e: "exec (S_reset s) w = Returns () w'" by simp
      have mono: "strong_count w1 b' \<le> strong_count w' b'" for b'
        using 1(5) [of b'] by simp
      have g: "strong_count w' bt = 0" if "counter t = Some bt" "strong_count w bt = 1" for bt
      proof -
        from strong_counter_below [OF c t that(1)] rel(4) have "bt \<noteq> brk ?v" by simp
        from 1(6) [OF this] rel(8) [of bt] that show ?thesis by simp
      qed
      have "follows w (S_reset s) w'"
        using mono g 1(3) by (intro follows_release [OF c t rel(6) rel(7) rel(8) 1(2)]) simp_all
      with e show ?thesis by blast
    qed
  qed
qed

lemma step_S_reset_new:
  assumes c: "coherent w" and p: "permitted w (S_reset_new s)"
  shows "\<exists>w'. (exec (S_reset_new s) w = Returns () w' \<or> exec (S_reset_new s) w = Throws bad_weak_ptr w')
            \<and> follows w (S_reset_new s) w'"
proof -
  from permittedD(1) [OF p] obtain t where t: "sptrs w s = Some t" by auto
  let ?w0 = "w\<lparr>objects := insert (brk w) (objects w), brk := Suc (brk w)\<rparr>"
  have c0: "coherent ?w0" by (rule coherent_new_T [OF c])
  have t0: "sptrs ?w0 s = Some t" using t by simp
  from t have tr: "t \<in> ran (sptrs w)" by (auto simp: in_ran)
  from permittedD(2) [OF p] have "SharedPtr_Reset s (Some (brk w)) ?w0 \<noteq> Undefined"
    by (simp add: new_T_def and_then_def)
  then have live: "\<forall>b. counter t = Some b \<longrightarrow> counters ?w0 b \<noteq> None"
    using t0 by (rule Reset_live)
  from c0 t0 live show ?thesis
  proof (cases rule: release_strong)
    case (1 w1 evs)
    note rel = 1
    let ?v = "w1\<lparr>sptrs := (sptrs ?w0)(s := None)\<rparr>"
    note cv = rel(5)
    have fv: "sptrs ?v s = None" by simp
    have "Destroyed_object (brk w) \<notin> set evs"
      using rel(7) [of "brk w"] strong_ptr_below [OF c tr] by simp
    then have ob: "brk w \<in> objects ?v" using rel(9) [of "brk w"] by simp
    have "ptr h \<noteq> Some (brk w)" if "h \<in> ran (sptrs ?v)" for h
    proof -
      from that ran_drop [of "sptrs w" s] have "h \<in> ran (sptrs w)" by auto
      then show ?thesis by (rule strong_ptr_below [OF c])
    qed
    with ob have pv: "Some (brk w) = None \<or> (\<exists>a. Some (brk w) = Some a \<and> a \<in> objects ?v \<and> (\<forall>h \<in> ran (sptrs ?v). ptr h \<noteq> Some a))"
      by blast
    from cv fv pv show ?thesis
    proof (cases rule: raw_step)
      case (1 w')
      have "?v = w1\<lparr>sptrs := (sptrs w1)(s := None)\<rparr>" by (simp add: rel(2))
      with 1(1) SharedPtr_Reset_eq [OF t0 rel(1), of "Some (brk w)"]
      have e: "exec (S_reset_new s) w = Returns () w'" by (simp add: new_T_def and_then_def)
      have mono: "strong_count w1 b' \<le> strong_count w' b'" for b'
        using 1(5) [of b'] by simp
      have g: "strong_count w' bt = 0" if "counter t = Some bt" "strong_count w bt = 1" for bt
      proof -
        from strong_counter_below [OF c0 t0 that(1)] rel(4) have "bt \<noteq> brk ?v" by simp
        from 1(6) [OF this] rel(8) [of bt] that show ?thesis by simp
      qed
      have ev: "events w1 = events w @ evs" using rel(6) by simp
      have de: "Destroyed_object a \<in> set evs \<longleftrightarrow>
               ptr t = Some a \<and> (\<exists>b. counter t = Some b \<and> strong_count w b = 1)" for a
        using rel(7) [of a] by simp
      have sc: "strong_count w1 b = (if counter t = Some b then strong_count w b - 1 else strong_count w b)" for b
        using rel(8) [of b] by simp
      have "follows w (S_reset_new s) w'"
        using mono g 1(3) by (intro follows_release [OF c t ev de sc 1(2)]) simp_all
      with e show ?thesis by blast
    qed
  qed
qed

section \<open>The stores a program reaches\<close>

lemma step:
  assumes c: "coherent w" and p: "permitted w x"
  shows "\<exists>w'. (exec x w = Returns () w' \<or> exec x w = Throws bad_weak_ptr w') \<and> follows w x w'"
proof (cases x)
  case (S_default s) with c p show ?thesis using step_S_default by blast
next
  case (S_null s) with c p show ?thesis using step_S_null by blast
next
  case (S_make s) with c p show ?thesis using step_S_make by blast
next
  case (S_copy s other) with c p show ?thesis using step_S_copy by blast
next
  case (S_move s other) with c p show ?thesis using step_S_move by blast
next
  case (S_from_weak s other) with c p show ?thesis using step_S_from_weak by blast
next
  case (S_dtor s) with c p show ?thesis using step_S_dtor by blast
next
  case (S_assign s other) with c p show ?thesis using step_S_assign by blast
next
  case (S_move_assign s other) with c p show ?thesis using step_S_move_assign by blast
next
  case (S_reset s) with c p show ?thesis using step_S_reset by blast
next
  case (S_reset_new s) with c p show ?thesis using step_S_reset_new by blast
next
  case (S_swap s other) with c p show ?thesis using step_S_swap by blast
next
  case (W_default s) with c p show ?thesis using step_W_default by blast
next
  case (W_copy s other) with c p show ?thesis using step_W_copy by blast
next
  case (W_move s other) with c p show ?thesis using step_W_move by blast
next
  case (W_from_shared s other) with c p show ?thesis using step_W_from_shared by blast
next
  case (W_dtor s) with c p show ?thesis using step_W_dtor by blast
next
  case (W_assign s other) with c p show ?thesis using step_W_assign by blast
next
  case (W_move_assign s other) with c p show ?thesis using step_W_move_assign by blast
next
  case (W_swap s other) with c p show ?thesis using step_W_swap by blast
next
  case (W_reset s) with c p show ?thesis using step_W_reset by blast
next
  case (W_lock s ret) with c p show ?thesis using step_W_lock by blast
qed

lemma coherent_init: "coherent init"
  by (simp add: coherent_def heap_ok_def counts_ok_def agree_def init_def sharers_def)

lemma reachable_coherent: "reachable w \<Longrightarrow> coherent w"
proof (induction rule: reachable.induct)
  case start
  show ?case by (rule coherent_init)
next
  case (returns w x w')
  from step [OF returns.IH returns.hyps(2)] returns.hyps(3) show ?case
    by (auto simp: follows_def)
next
  case (throws w x e w')
  from step [OF throws.IH throws.hyps(2)] throws.hyps(3) show ?case
    by (auto simp: follows_def)
qed









text \<open>
  Nothing that the source runs to a return or to a throw is left out of \<open>permitted\<close>.
\<close>

lemma permitted_iff_runs:
  "permitted w x \<longleftrightarrow>
     declared w x \<and> (\<exists>w'. exec x w = Returns () w' \<or> exec x w = Throws bad_weak_ptr w')"
proof (cases "exec x w")
  case (Returns u w')
  then show ?thesis by (simp add: permitted_def)
next
  case (Throws e w')
  then show ?thesis by (cases e) (simp add: permitted_def)
next
  case Undefined
  then show ?thesis by (simp add: permitted_def)
qed

text \<open>
  In a store where every strong handle is empty or owns an object, every statement whose
  names are in scope is permitted, the copy construction from an empty handle apart:
  what \<open>permitted\<close> leaves out always involves a handle with a null pointer.
\<close>

lemma owners_defined:
  assumes r: "reachable w" and d: "declared w x"
    and pl: "\<forall>h \<in> ran (sptrs w). counter h \<noteq> None \<longrightarrow> ptr h \<noteq> None"
    and cp: "\<forall>s other h. x = S_copy s other \<longrightarrow> sptrs w other = Some h \<longrightarrow> counter h \<noteq> None"
  shows "permitted w x"
proof -
  note c = reachable_coherent [OF r]
  have live: "\<forall>b. counter t = Some b \<longrightarrow> counters w b \<noteq> None" if t: "sptrs w s = Some t" for s t
  proof (intro allI impI)
    fix b assume tc: "counter t = Some b"
    from t have tr: "t \<in> ran (sptrs w)" by (rule ranI)
    with pl tc obtain a where "ptr t = Some a" by fastforce
    with coherent_strong [OF c tr] tc show "counters w b \<noteq> None" by (simp add: strong_ok_iff)
  qed
  have wlive: "\<forall>b. counter t = Some b \<longrightarrow> counters w b \<noteq> None" if t: "wptrs w s = Some t" for s t
    using weak_live [OF c t] by blast
  have rel: "\<exists>w1. SharedPtr_DecreaseAndDelete t w = Returns () w1" if t: "sptrs w s = Some t" for s t
    by (rule release_strong [OF c t live [OF t]]) blast
  have wrel: "\<exists>w1. WeakPtr_DecreaseAndDelete t w = Returns () w1" if t: "wptrs w s = Some t" for s t
    by (rule release_weak [OF c t]) blast
  have "exec x w \<noteq> Undefined"
  proof (cases x)
    case (S_default s)
    then show ?thesis by (simp add: SharedPtr_default_def)
  next
    case (S_null s)
    then show ?thesis by (simp add: SharedPtr_raw_def prims)
  next
    case (S_make s)
    then show ?thesis by (simp add: MakeShared_def SharedPtr_raw_def prims)
  next
    case (S_copy s other)
    with d obtain ot where o: "sptrs w other = Some ot" by auto
    with cp S_copy obtain b where oc: "counter ot = Some b" by auto
    with live [OF o] obtain k where "counters w b = Some k" by blast
    with S_copy o oc show ?thesis by (simp add: SharedPtr_copy_def inc_shared_def)
  next
    case (S_move s other)
    with d show ?thesis by (auto simp: SharedPtr_move_def)
  next
    case (S_from_weak s other)
    with d obtain ot where f: "sptrs w s = None" and o: "wptrs w other = Some ot" by auto
    from c f o show ?thesis unfolding S_from_weak
      by (cases rule: from_weak_step) simp_all
  next
    case (S_dtor s)
    with d obtain t where t: "sptrs w s = Some t" by auto
    with rel [OF t] S_dtor show ?thesis by (auto simp: SharedPtr_dtor_def and_then_def)
  next
    case (S_assign s other)
    with d obtain t ot where t: "sptrs w s = Some t" and o: "sptrs w other = Some ot" by auto
    show ?thesis
    proof (cases "s = other")
      case True
      with t S_assign show ?thesis by (simp add: SharedPtr_assign_def)
    next
      case ne: False
      from c t live [OF t] show ?thesis
      proof (cases rule: release_strong)
        case (1 w1 evs)
        let ?v = "w1\<lparr>sptrs := (sptrs w)(s := None)\<rparr>"
        have ov: "sptrs ?v other = Some ot" using o ne by simp
        note eq = SharedPtr_assign_eq [OF t o ne 1(1)]
        show ?thesis
        proof (cases "counter ot")
          case None
          with eq S_assign show ?thesis by simp
        next
          case (Some b)
          from o have "ot \<in> ran (sptrs w)" by (rule ranI)
          with pl Some obtain a where pa: "ptr ot = Some a" by fastforce
          from coherentD(4) [OF 1(5) ov] Some pa have "counters ?v b \<noteq> None"
            by (simp add: strong_ok_iff)
          then obtain k where "counters w1 b = Some k" by auto
          with eq Some S_assign show ?thesis by (simp add: inc_shared_def)
        qed
      qed
    qed
  next
    case (S_move_assign s other)
    with d obtain t ot where t: "sptrs w s = Some t" and o: "sptrs w other = Some ot" by auto
    with rel [OF t] S_move_assign show ?thesis
      by (auto simp: SharedPtr_move_assign_def and_then_def)
  next
    case (S_reset s)
    with d obtain t where t: "sptrs w s = Some t" by auto
    with rel [OF t] S_reset show ?thesis
      by (auto simp: SharedPtr_Reset_def new_Counter_def and_then_def)
  next
    case (S_reset_new s)
    with d obtain t where t: "sptrs w s = Some t" by auto
    let ?w0 = "w\<lparr>objects := insert (brk w) (objects w), brk := Suc (brk w)\<rparr>"
    have c0: "coherent ?w0" by (rule coherent_new_T [OF c])
    have t0: "sptrs ?w0 s = Some t" using t by simp
    have l0: "\<forall>b. counter t = Some b \<longrightarrow> counters ?w0 b \<noteq> None" using live [OF t] by simp
    have "\<exists>w1. SharedPtr_DecreaseAndDelete t ?w0 = Returns () w1"
      by (rule release_strong [OF c0 t0 l0]) blast
    with t S_reset_new show ?thesis
      by (auto simp: SharedPtr_Reset_def new_Counter_def new_T_def and_then_def)
  next
    case (S_swap s other)
    with d show ?thesis by (auto simp: SharedPtr_Swap_def)
  next
    case (W_default s)
    then show ?thesis by (simp add: WeakPtr_default_def)
  next
    case (W_copy s other)
    with d obtain ot where o: "wptrs w other = Some ot" by auto
    show ?thesis
    proof (cases "counter ot")
      case None
      with o W_copy show ?thesis by (simp add: WeakPtr_copy_def)
    next
      case (Some b)
      with wlive [OF o] obtain k where "counters w b = Some k" by blast
      with o Some W_copy show ?thesis by (simp add: WeakPtr_copy_def inc_weak_def)
    qed
  next
    case (W_move s other)
    with d show ?thesis by (auto simp: WeakPtr_move_def)
  next
    case (W_from_shared s other)
    with d obtain ot where o: "sptrs w other = Some ot" by auto
    show ?thesis
    proof (cases "counter ot")
      case None
      with o W_from_shared show ?thesis by (simp add: WeakPtr_from_shared_def)
    next
      case (Some b)
      with live [OF o] obtain k where "counters w b = Some k" by blast
      with o Some W_from_shared show ?thesis by (simp add: WeakPtr_from_shared_def inc_weak_def)
    qed
  next
    case (W_dtor s)
    with d obtain t where t: "wptrs w s = Some t" by auto
    with wrel [OF t] W_dtor show ?thesis by (auto simp: WeakPtr_dtor_def and_then_def)
  next
    case (W_assign s other)
    with d have "declared w (W_assign s other)" by simp
    moreover have "\<not> (declared w (W_assign s other) \<and> exec (W_assign s other) w = Undefined)"
    proof
      assume a: "declared w (W_assign s other) \<and> exec (W_assign s other) w = Undefined"
      then obtain t ot where t: "wptrs w s = Some t" and o: "wptrs w other = Some ot" by auto
      show False
      proof (cases "s = other")
        case True
        with t a show False by (simp add: WeakPtr_assign_def)
      next
        case ne: False
        from c t show False
        proof (cases rule: release_weak)
          case (1 w1 evs)
          let ?v = "w1\<lparr>wptrs := (wptrs w)(s := None)\<rparr>"
          have ov: "wptrs ?v other = Some ot" using o ne by simp
          note eq = WeakPtr_assign_eq [OF t o ne 1(1)]
          show False
          proof (cases "counter ot")
            case None
            with eq a show False by (simp add: Let_def)
          next
            case (Some b)
            from weak_live [OF 1(6) ov Some] obtain k where "counters w1 b = Some k" by auto
            with eq Some a show False by (simp add: Let_def inc_weak_def)
          qed
        qed
      qed
    qed
    ultimately show ?thesis using W_assign by blast
  next
    case (W_move_assign s other)
    with d obtain t ot where t: "wptrs w s = Some t" and o: "wptrs w other = Some ot" by auto
    with wrel [OF t] W_move_assign show ?thesis
      by (auto simp: WeakPtr_move_assign_def and_then_def)
  next
    case (W_swap s other)
    with d show ?thesis by (auto simp: WeakPtr_Swap_def)
  next
    case (W_reset s)
    with d obtain t where t: "wptrs w s = Some t" by auto
    show ?thesis
    proof (cases "counter t")
      case None
      with t W_reset show ?thesis by (simp add: WeakPtr_Reset_def)
    next
      case (Some b)
      with wlive [OF t] obtain k where "counters w b = Some k" by blast
      with t Some W_reset show ?thesis by (simp add: WeakPtr_Reset_def)
    qed
  next
    case (W_lock s ret)
    with d obtain ot where f: "sptrs w ret = None" and o: "wptrs w s = Some ot" by auto
    from c f o show ?thesis unfolding W_lock
      by (cases rule: from_weak_step)
        (simp_all add: WeakPtr_Lock_def and_then_def SharedPtr_raw_def new_Counter_def)
  qed
  with d show ?thesis by (simp add: permitted_def)
qed

section \<open>When the managed object is destroyed\<close>



section \<open>\<open>Reset()\<close> on a weak handle\<close>



section \<open>What \<open>UseCount()\<close> counts\<close>

text \<open>
  In every store that a client program reaches, \<open>UseCount()\<close> on a strong handle whose
  pointer is not null is the number of strong handles alive on its control block.
\<close>

lemma UseCount_of_owner:
  assumes "reachable w" and "sptrs w s = Some h" and "ptr h = Some a"
  shows "\<exists>c n. counter h = Some c \<and> SharedPtr_UseCount s w = Returns n w \<and>
           unat n = card (sharers (sptrs w) c)"
proof -
  note c = reachable_coherent [OF assms(1)]
  from assms(2) have hr: "h \<in> ran (sptrs w)" by (rule ranI)
  from coherent_strong [OF c hr] assms(3) obtain b where b: "counter h = Some b"
    by (cases "counter h") (auto simp: strong_ok_iff)
  from c hr b assms(3) obtain k where "counters w b = Some k"
    "unat (shared_count k) = card (sharers (sptrs w) b)"
    by (rule object_owner)
  with assms(2) b show ?thesis by (simp add: SharedPtr_UseCount_def)
qed

lemma sharers_null_owner: "sharers (sptrs null_owner) 0 = {0}"
  by (auto simp: sharers_def null_owner_def)

lemma sharers_null_pair: "sharers (sptrs null_pair) 0 = {0, 1}"
  by (auto simp: sharers_def null_pair_def)

text \<open>
  C5. \<open>SharedPtr<T> a(nullptr);\<close> builds a handle on a new control block whose strong
  count is 0: \<open>a.UseCount()\<close> is 0 with one handle alive. \<open>SharedPtr<T> b(a);\<close> increments
  that count to 1: \<open>UseCount()\<close> is 1 on both handles with two handles alive. When \<open>b\<close>
  is then destroyed the count is back to 0 with no weak handle, so the block is freed,
  and \<open>a\<close> is left pointing to it: \<open>a.UseCount()\<close> and the destructor of \<open>a\<close>
  dereference a freed block.
\<close>

theorem copy_of_null_pointer_handle_miscounts:
  "run [SharedPtr_raw 0 None] init = Returns () null_owner
   \<and> SharedPtr_UseCount 0 null_owner = Returns 0 null_owner
   \<and> card (sharers (sptrs null_owner) 0) = 1
   \<and> SharedPtr_copy 1 0 null_owner = Returns () null_pair
   \<and> SharedPtr_UseCount 0 null_pair = Returns 1 null_pair
   \<and> SharedPtr_UseCount 1 null_pair = Returns 1 null_pair
   \<and> card (sharers (sptrs null_pair) 0) = 2
   \<and> SharedPtr_dtor 1 null_pair = Returns () null_dangling
   \<and> sptrs null_dangling 0 = Some \<lparr>ptr = None, counter = Some 0\<rparr>
   \<and> counters null_dangling 0 = None
   \<and> SharedPtr_UseCount 0 null_dangling = Undefined
   \<and> SharedPtr_dtor 0 null_dangling = Undefined"
proof (intro conjI)
  show "run [SharedPtr_raw 0 None] init = Returns () null_owner"
    by (simp add: SharedPtr_raw_def prims init_def null_owner_def)
  show "SharedPtr_UseCount 0 null_owner = Returns 0 null_owner"
    by (simp add: SharedPtr_UseCount_def null_owner_def)
  show "card (sharers (sptrs null_owner) 0) = 1"
    by (simp add: sharers_null_owner)
  show "SharedPtr_copy 1 0 null_owner = Returns () null_pair"
    by (simp add: SharedPtr_copy_def prims null_owner_def null_pair_def fun_upd_twist)
  show "SharedPtr_UseCount 0 null_pair = Returns 1 null_pair"
    by (simp add: SharedPtr_UseCount_def null_pair_def)
  show "SharedPtr_UseCount 1 null_pair = Returns 1 null_pair"
    by (simp add: SharedPtr_UseCount_def null_pair_def)
  show "card (sharers (sptrs null_pair) 0) = 2"
    by (simp add: sharers_null_pair)
  show "SharedPtr_dtor 1 null_pair = Returns () null_dangling"
    by (simp add: SharedPtr_dtor_def SharedPtr_DecreaseAndDelete_def prims null_pair_def
        null_dangling_def fun_upd_twist)
  show "sptrs null_dangling 0 = Some \<lparr>ptr = None, counter = Some 0\<rparr>"
    by (simp add: null_dangling_def)
  show "counters null_dangling 0 = None"
    by (simp add: null_dangling_def)
  show "SharedPtr_UseCount 0 null_dangling = Undefined"
    by (simp add: SharedPtr_UseCount_def null_dangling_def)
  show "SharedPtr_dtor 0 null_dangling = Undefined"
    by (simp add: SharedPtr_dtor_def SharedPtr_DecreaseAndDelete_def prims null_dangling_def)
qed

end
